theory Spec2Isabelle
  imports Main "HOL-Library.Word"
begin

unbundle bit_operations_syntax

section \<open>The program\<close>

text \<open>
  A shallow embedding of the parts of bwtc that the properties below are about: the
  packed-integer codec of \<^verbatim>\<open>coders.cc\<close>, the frequency table and the common-pair
  preprocessor of \<^verbatim>\<open>preprocessors/preprocessor.cc\<close>, and the block header, the
  run-length payload and the trailer of \<^verbatim>\<open>HuffmanCoders.cpp\<close>.

  Machine integers are words of the declared width.  A failing \<^verbatim>\<open>assert\<close> aborts the
  program and is the result \<open>Inl AssertionFailed\<close>; a shift by a count that C++ leaves
  undefined is \<open>Inl UndefinedShift\<close>; reading past the end of the input is
  \<open>Inl StreamExhausted\<close>.  \<open>MalformedStream\<close> is the error that the specification names
  for a packed integer that does not end; no function of the source raises it.
\<close>

datatype error = AssertionFailed | UndefinedShift | StreamExhausted | MalformedStream

type_synonym byte = "8 word"
type_synonym uint16 = "16 word"
type_synonym uint32 = "32 word"
type_synonym uint64 = "64 word"

subsection \<open>Packed integers (\<^verbatim>\<open>coders.cc\<close>)\<close>

text \<open>
  \<^verbatim>\<open>PackInteger\<close> splits a 64-bit value into 7-bit groups, least significant first, one
  group per byte of the result, and sets bit 7 of every byte that is followed by another
  one.  The loop counter \<^verbatim>\<open>i\<close> numbers the bytes; \<^verbatim>\<open>assert(i < 8)\<close> guards the shift by
  \<^verbatim>\<open>i*8\<close>, which is undefined from 64 on, so the model aborts when the ninth byte is
  started.  The second component of the result is \<^verbatim>\<open>*bytes_needed\<close>.
\<close>

function PackInteger_loop :: "uint64 \<Rightarrow> nat \<Rightarrow> uint64 \<Rightarrow> error + (uint64 \<times> nat)" where
  "PackInteger_loop integer i result =
     (if integer = 0 then Inr (result, i)
      else if 8 \<le> i then Inl AssertionFailed
      else let result1 = result OR push_bit (i * 8) (integer AND 0x7F);
               integer1 = drop_bit 7 integer;
               result2 = (if integer1 \<noteq> 0 then result1 OR push_bit (i * 8) 0x80 else result1)
           in PackInteger_loop integer1 (i + 1) result2)"
  by pat_completeness auto
termination
  by (relation "measure (\<lambda>(integer, i, result). 8 - i)") auto

definition PackInteger :: "64 word \<Rightarrow> error + (64 word \<times> nat)" where
  "PackInteger integer = PackInteger_loop integer 0 0"

text \<open>
  \<^verbatim>\<open>UnpackInteger\<close> is a do-while loop: the body runs before the continuation bit of
  the byte just consumed is tested; \<^verbatim>\<open>assert(bits_handled <= 56)\<close> sits at the end of
  the body.
\<close>

function UnpackInteger_loop :: "64 word \<Rightarrow> nat \<Rightarrow> 64 word \<Rightarrow> error + 64 word" where
  "UnpackInteger_loop packed_integer bits_handled result =
     (let bits_left = (packed_integer AND 0x80 \<noteq> 0);
          result1 = result OR push_bit bits_handled (packed_integer AND 0x7F);
          packed1 = drop_bit 8 packed_integer;
          bits_handled1 = bits_handled + 7
      in if 56 < bits_handled1 then Inl AssertionFailed
         else if bits_left then UnpackInteger_loop packed1 bits_handled1 result1
         else Inr result1)"
  by pat_completeness auto
termination
  by (relation "measure (\<lambda>(p, bits_handled, result). 56 - bits_handled)") auto

definition UnpackInteger :: "64 word \<Rightarrow> error + 64 word" where
  "UnpackInteger packed_integer = UnpackInteger_loop packed_integer 0 0"

subsection \<open>Input and output streams\<close>

text \<open>
  Modelled from the spec: \<^verbatim>\<open>RawInStream\<close> and \<^verbatim>\<open>RawOutStream\<close>, whose sources are not
  part of the repository snapshot.  The reader offers \<^verbatim>\<open>readByte\<close>, the bit-level
  \<^verbatim>\<open>readBit\<close> and \<^verbatim>\<open>flushBuffer\<close>, which discards the bits up to the next byte boundary.
  Bits of a byte are delivered most significant first, the order in which the encoders
  assemble them.  The state of a reader is the list of bytes not yet touched and the
  bits of the current byte not yet delivered.  A writer is the list of bytes written so
  far; \<^verbatim>\<open>writeByte\<close> appends one.
\<close>

record RawInStream =
  bitBuffer :: "bool list"
  input :: "byte list"

definition bits_of_byte :: "byte \<Rightarrow> bool list" where
  "bits_of_byte b = map (bit b) (rev [0..<8])"

definition readByte :: "RawInStream \<Rightarrow> error + (byte \<times> RawInStream)" where
  "readByte s = (case input s of
       [] \<Rightarrow> Inl StreamExhausted
     | b # bs \<Rightarrow> Inr (b, s\<lparr>input := bs\<rparr>))"

definition readBit :: "RawInStream \<Rightarrow> error + (bool \<times> RawInStream)" where
  "readBit s = (case bitBuffer s of
       x # xs \<Rightarrow> Inr (x, s\<lparr>bitBuffer := xs\<rparr>)
     | [] \<Rightarrow> (case input s of
           [] \<Rightarrow> Inl StreamExhausted
         | b # bs \<Rightarrow> Inr (hd (bits_of_byte b), \<lparr>bitBuffer = tl (bits_of_byte b), input = bs\<rparr>)))"

definition flushBuffer :: "RawInStream \<Rightarrow> RawInStream" where
  "flushBuffer s = s\<lparr>bitBuffer := []\<rparr>"

definition writeByte :: "byte \<Rightarrow> byte list \<Rightarrow> byte list" where
  "writeByte b out = out @ [b]"

subsection \<open>Reading a packed integer (\<^verbatim>\<open>HuffmanDecoder::readPackedInteger\<close>)\<close>

text \<open>
  The loop of \<^verbatim>\<open>readPackedInteger\<close> (the one of \<^verbatim>\<open>WaveletDecoder\<close> is the same text)
  reads bytes while the one just read has bit 7 set and ORs byte number \<^verbatim>\<open>i\<close>, shifted
  left by \<^verbatim>\<open>i*8\<close>, into a 64-bit accumulator.  The source has no bound on \<^verbatim>\<open>i\<close>: at the
  ninth byte the shift count is 64, which C++ leaves undefined.
\<close>

definition kEndSymbol :: uint64 where
  "kEndSymbol = push_bit 63 1"

definition kEndMask :: uint64 where
  "kEndMask = push_bit 7 1"

function readPackedInteger_loop :: "nat \<Rightarrow> uint64 \<Rightarrow> RawInStream \<Rightarrow> error + (uint64 \<times> RawInStream)" where
  "readPackedInteger_loop i packed_integer s =
     (case readByte s of
        Inl e \<Rightarrow> Inl e
      | Inr (b, s') \<Rightarrow>
          if 64 \<le> i * 8 then Inl UndefinedShift
          else let read = (ucast b :: uint64);
                   bits_left = (read AND kEndMask \<noteq> 0);
                   packed1 = packed_integer OR push_bit (i * 8) read
               in if bits_left then readPackedInteger_loop (i + 1) packed1 s'
                  else Inr (packed1, s'))"
  by pat_completeness auto
termination
  by (relation "measure (\<lambda>(i, p, s). length (input s))")
     (auto simp add: readByte_def split: list.splits)

definition readPackedInteger :: "RawInStream \<Rightarrow> error + (uint64 \<times> RawInStream)" where
  "readPackedInteger s =
     (case readPackedInteger_loop 0 0 s of
        Inl e \<Rightarrow> Inl e
      | Inr (packed_integer, s') \<Rightarrow>
          Inr (if packed_integer = 0x80 then kEndSymbol else packed_integer, s'))"

text \<open>
  The value that a sequence of bytes spells when the first byte is the least significant
  one: what the accumulator holds after the loop, in the words of the format.
\<close>

fun little_endian :: "byte list \<Rightarrow> uint64" where
  "little_endian [] = 0"
| "little_endian (b # bs) = ucast b OR push_bit 8 (little_endian bs)"

subsection \<open>Streams as sequences of bits\<close>

text \<open>
  Notions for the proofs about bit-level reading: the bits of a list of bytes, the bits
  that a reader has still to deliver, and the fact that its bit buffer holds less than
  one byte.
\<close>

definition bits_of_bytes :: "byte list \<Rightarrow> bool list" where
  "bits_of_bytes bs = concat (map bits_of_byte bs)"

definition stream_bits :: "RawInStream \<Rightarrow> bool list" where
  "stream_bits s = bitBuffer s @ bits_of_bytes (input s)"

definition aligned :: "RawInStream \<Rightarrow> bool" where
  "aligned s = (length (bitBuffer s) < 8)"

subsection \<open>The block header (\<^verbatim>\<open>HuffmanEncoder::writeBlockHeader\<close>)\<close>

record HuffmanEncoder =
  m_out :: "byte list"
  m_headerPosition :: nat
  m_compressedBlockLength :: uint64

text \<open>
  \<^verbatim>\<open>writePackedInteger\<close> is a do-while loop that writes the low byte of the packed value
  and shifts it out, until nothing is left.
\<close>

function writePackedInteger :: "uint64 \<Rightarrow> byte list \<Rightarrow> byte list" where
  "writePackedInteger packed_integer out =
     (let to_written = (ucast (packed_integer AND 0xFF) :: byte);
          packed1 = drop_bit 8 packed_integer;
          out1 = writeByte to_written out
      in if packed1 \<noteq> 0 then writePackedInteger packed1 out1 else out1)"
  by pat_completeness auto
termination
proof (relation "measure (\<lambda>(p, out). unat p)")
  show "wf (measure (\<lambda>(p, out). unat p))"
    by simp
next
  fix packed_integer :: uint64 and out :: "byte list" and x xa xb
  assume a: "xa = drop_bit 8 packed_integer" and "xa \<noteq> 0"
  have d: "unat (drop_bit 8 packed_integer) = unat packed_integer div 256"
    by (simp add: drop_bit_eq_div unat_div)
  have "unat (drop_bit 8 packed_integer) \<noteq> 0"
    using a \<open>xa \<noteq> 0\<close> by (simp only: unat_eq_0) simp
  then have "unat packed_integer div 256 < unat packed_integer"
    using d by (simp add: div_less_dividend)
  then show "((xa, xb), (packed_integer, out)) \<in> measure (\<lambda>(p, out). unat p)"
    using a d by simp
qed

text \<open>
  The section heuristic: the loop over the statistics with the running \<^verbatim>\<open>sum\<close> (a
  \<^verbatim>\<open>size_t\<close>, here \<open>sum_acc\<close>) and the vector \<^verbatim>\<open>temp\<close> of the sections closed so far.
\<close>

fun deduce_sections_loop :: "uint64 list \<Rightarrow> uint64 \<Rightarrow> uint64 list \<Rightarrow> uint64 \<times> uint64 list" where
  "deduce_sections_loop [] sum_acc temp = (sum_acc, temp)"
| "deduce_sections_loop (x # xs) sum_acc temp =
     (let sum1 = sum_acc + x
      in if 10000 \<le> sum1 then deduce_sections_loop xs 0 (temp @ [sum1])
         else deduce_sections_loop xs sum1 temp)"

definition deduce_sections :: "uint64 list \<Rightarrow> uint64 list" where
  "deduce_sections s =
     (let (sum_acc, temp) = deduce_sections_loop s 0 []
      in if sum_acc \<noteq> 0
         then (if length temp > 0 then butlast temp @ [last temp + sum_acc] else temp @ [sum_acc])
         else temp)"

text \<open>
  \<^verbatim>\<open>utils::packInteger\<close> belongs to a file that is not part of the repository snapshot;
  it is the parameter \<open>packInteger\<close>, giving the packed value and the number of bytes it
  takes.  The result is the rewritten statistics vector and the encoder after the call.
\<close>

definition writeBlockHeader ::
  "(uint64 \<Rightarrow> uint64 \<times> int) \<Rightarrow> uint64 list \<Rightarrow> HuffmanEncoder \<Rightarrow> error + (uint64 list \<times> HuffmanEncoder)" where
  "writeBlockHeader packInteger stats enc =
     (let headerPosition = length (m_out enc);
          out1 = fold (\<lambda>i. writeByte 0x00) [0..<6] (m_out enc);
          temp = deduce_sections stats;
          s = temp;
          len = (if length temp = 256 then 0 else (of_nat (length temp) :: byte));
          out2 = writeByte len out1;
          headerLength = (1 :: uint64)
      in if \<not> length temp \<le> 256 then Inl AssertionFailed
         else let (out3, headerLength1) =
                    fold (\<lambda>x (out, hl).
                            let (packed_cblock_size, bytes) = packInteger x
                            in (writePackedInteger packed_cblock_size out, hl + of_int bytes))
                         s (out2, headerLength)
              in Inr (s, enc\<lparr>m_out := out3, m_headerPosition := headerPosition,
                                m_compressedBlockLength := headerLength1\<rparr>))"

text \<open>
  The sections in the words of the specification.  A closed section is a run of
  consecutive statistics whose running sum reaches 10000 with its last entry and not
  before; the remainder is a run whose running sum never reaches 10000.  A nonzero
  remainder is added to the last closed section, or is the only section when none was
  closed.  Sums are those of the 64-bit counters.
\<close>

definition closed_section :: "uint64 list \<Rightarrow> bool" where
  "closed_section c =
     (c \<noteq> [] \<and> 10000 \<le> sum_list c \<and> list_all (\<lambda>k. sum_list (take k c) < 10000) [0..<length c])"

definition open_remainder :: "uint64 list \<Rightarrow> bool" where
  "open_remainder r = list_all (\<lambda>k. sum_list (take k r) < 10000) [0..<Suc (length r)]"

definition sections_of :: "uint64 list list \<Rightarrow> uint64 list \<Rightarrow> uint64 list" where
  "sections_of chunks r =
     (if sum_list r = 0 then map sum_list chunks
      else if chunks = [] then [sum_list r]
      else map sum_list (butlast chunks) @ [sum_list (last chunks) + sum_list r])"

subsection \<open>The trailer (\<^verbatim>\<open>HuffmanEncoder::writeTrailer\<close> and the end of \<^verbatim>\<open>decodeBlock\<close>)\<close>

text \<open>
  The state of the loops of \<^verbatim>\<open>writeTrailer\<close>: the byte \<^verbatim>\<open>s\<close> being assembled, \<^verbatim>\<open>bitsLeft\<close>,
  the output and the counter \<^verbatim>\<open>bytes\<close>.  \<open>trailer_bit\<close> is the body of the inner loop for
  bit \<^verbatim>\<open>j\<close> of one LF power: \<^verbatim>\<open>s << 1\<close> and the OR are computed in 32 bits and the
  assignment to \<^verbatim>\<open>s\<close> keeps the low byte.
\<close>

type_synonym trailer_state = "byte \<times> int \<times> byte list \<times> int"

definition trailer_bit :: "uint32 \<Rightarrow> nat \<Rightarrow> trailer_state \<Rightarrow> trailer_state" where
  "trailer_bit p j st =
     (case st of (s, bitsLeft, out, bytes) \<Rightarrow>
        let s1 = (ucast (push_bit 1 (ucast s :: uint32) OR (drop_bit j p AND 0x1)) :: byte);
            bitsLeft1 = bitsLeft - 1
        in if bitsLeft1 = 0 then (s1, 8, writeByte s1 out, bytes + 1)
           else (s1, bitsLeft1, out, bytes))"

definition trailer_power :: "uint32 \<Rightarrow> trailer_state \<Rightarrow> trailer_state" where
  "trailer_power p st = fold (trailer_bit p) (rev [0..<31]) st"

definition writeTrailer :: "uint32 list \<Rightarrow> byte list \<Rightarrow> int \<times> byte list" where
  "writeTrailer LFpowers out0 =
     (let s0 = (ucast ((of_nat (length LFpowers) :: uint64) - 1) :: byte);
          (s, bitsLeft, out, bytes) = fold trailer_power LFpowers (s0, 8, writeByte s0 out0, 1)
      in if bitsLeft < 8
         then (bytes + 1, writeByte (ucast (push_bit (nat bitsLeft) (ucast s :: uint32))) out)
         else (bytes, out))"

text \<open>
  The decoder reads the count byte, then 31 bits for each LF power, most significant
  first, and drops the rest of the last byte.
\<close>

fun read_pos :: "nat \<Rightarrow> uint32 \<Rightarrow> RawInStream \<Rightarrow> error + (uint32 \<times> RawInStream)" where
  "read_pos 0 pos s = Inr (pos, s)"
| "read_pos (Suc n) pos s =
     (case readBit s of
        Inl e \<Rightarrow> Inl e
      | Inr (b, s') \<Rightarrow> read_pos n (push_bit 1 pos OR (if b then 1 else 0)) s')"

fun read_LFpowers :: "nat \<Rightarrow> RawInStream \<Rightarrow> error + (uint32 list \<times> RawInStream)" where
  "read_LFpowers 0 s = Inr ([], s)"
| "read_LFpowers (Suc n) s =
     (case read_pos 31 0 s of
        Inl e \<Rightarrow> Inl e
      | Inr (pos, s') \<Rightarrow>
          (case read_LFpowers n s' of
             Inl e \<Rightarrow> Inl e
           | Inr (ps, s'') \<Rightarrow> Inr (pos # ps, s'')))"

definition readTrailer :: "RawInStream \<Rightarrow> error + (uint32 list \<times> RawInStream)" where
  "readTrailer s =
     (case readByte s of
        Inl e \<Rightarrow> Inl e
      | Inr (b, s1) \<Rightarrow>
          let LFpows = (ucast b + 1 :: uint32)
          in (case read_LFpowers (unat LFpows) s1 of
                Inl e \<Rightarrow> Inl e
              | Inr (LFpowers, s2) \<Rightarrow> Inr (LFpowers, flushBuffer s2)))"

text \<open>
  Notions for the proofs about the trailer: the low \<open>k\<close> bits of the byte being
  assembled, most significant first; the 31 bits written for an LF power; the bits a
  writer state stands for, its invariant and the difference that \<^verbatim>\<open>bytes\<close> keeps to the
  length of the output; the two shift-and-or steps of the writer and of the reader.
\<close>

definition pending_bits :: "byte \<Rightarrow> nat \<Rightarrow> bool list" where
  "pending_bits s k = map (bit s) (rev [0..<k])"

definition power_bits :: "uint32 \<Rightarrow> bool list" where
  "power_bits p = map (bit p) (rev [0..<31])"

fun enc_bits :: "trailer_state \<Rightarrow> bool list" where
  "enc_bits (s, bitsLeft, out, bytes) = bits_of_bytes out @ pending_bits s (8 - nat bitsLeft)"

fun enc_ok :: "trailer_state \<Rightarrow> bool" where
  "enc_ok (s, bitsLeft, out, bytes) = (1 \<le> bitsLeft \<and> bitsLeft \<le> 8)"

fun enc_count :: "trailer_state \<Rightarrow> int" where
  "enc_count (s, bitsLeft, out, bytes) = bytes - int (length out)"

definition shift_in :: "byte \<Rightarrow> uint32 \<Rightarrow> nat \<Rightarrow> byte" where
  "shift_in s p j = ucast (push_bit 1 (ucast s :: uint32) OR (drop_bit j p AND 0x1))"

definition shift_bit :: "bool \<Rightarrow> 'a::len word \<Rightarrow> 'a word" where
  "shift_bit b pos = push_bit 1 pos OR (if b then 1 else 0)"

subsection \<open>Run lengths as gamma codes (\<^verbatim>\<open>HuffmanEncoder::encodeData\<close>, \<^verbatim>\<open>HuffmanDecoder::decodeBlock\<close>)\<close>

text \<open>
  Modelled from the spec: \<^verbatim>\<open>utils::logFloor\<close>, whose file is not part of the repository
  snapshot, is the floor of the binary logarithm.  Its value at 0, which the encoder never
  asks for, is taken to be 0.
\<close>

fun logFloor :: "nat \<Rightarrow> nat" where
  "logFloor n = (if n < 2 then 0 else Suc (logFloor (n div 2)))"

text \<open>
  The encoder keeps the bits not yet written in the low \<^verbatim>\<open>bitsInBuffer\<close> bits of the 64-bit
  \<^verbatim>\<open>buffer\<close>.  Both of its \<^verbatim>\<open>while\<close> loops have the same body, which writes the top eight of
  these bits: \<open>write_bytes_while t\<close> runs that body as long as \<^verbatim>\<open>bitsInBuffer\<close> exceeds \<open>t\<close>;
  the loop before a code of \<^verbatim>\<open>gammaCodeLen\<close> bits has the condition
  \<^verbatim>\<open>bitsInBuffer + gammaCodeLen > 64\<close>, the loop after the last code \<^verbatim>\<open>bitsInBuffer >= 8\<close>.
  \<^verbatim>\<open>bitsInBuffer\<close> is a signed integer, and the first loop can take it below zero; the
  shift by a negative count that follows is undefined.
\<close>

type_synonym gamma_state = "uint64 \<times> int \<times> HuffmanEncoder"

definition write_counted :: "byte \<Rightarrow> HuffmanEncoder \<Rightarrow> HuffmanEncoder" where
  "write_counted b enc =
     enc\<lparr>m_out := writeByte b (m_out enc),
         m_compressedBlockLength := m_compressedBlockLength enc + 1\<rparr>"

function write_bytes_while :: "int \<Rightarrow> gamma_state \<Rightarrow> error + gamma_state" where
  "write_bytes_while t (buffer, bitsInBuffer, enc) =
     (if t < bitsInBuffer
      then let bitsInBuffer1 = bitsInBuffer - 8
           in if bitsInBuffer1 < 0 then Inl UndefinedShift
              else write_bytes_while t
                     (buffer, bitsInBuffer1,
                      write_counted (ucast (drop_bit (nat bitsInBuffer1) buffer AND 0xff)) enc)
      else Inr (buffer, bitsInBuffer, enc))"
  by pat_completeness auto
termination
  by (relation "measure (\<lambda>(t, buffer, bitsInBuffer, enc). nat bitsInBuffer)") auto

definition encode_gamma :: "uint32 \<Rightarrow> gamma_state \<Rightarrow> error + gamma_state" where
  "encode_gamma runlen_k st =
     (let gammaCodeLen = int (logFloor (unat runlen_k)) * 2 + 1
      in case write_bytes_while (64 - gammaCodeLen) st of
           Inl e \<Rightarrow> Inl e
         | Inr (buffer, bitsInBuffer, enc) \<Rightarrow>
             Inr (push_bit (nat gammaCodeLen) buffer OR ucast runlen_k,
                  bitsInBuffer + gammaCodeLen, enc))"

fun encode_gammas :: "uint32 list \<Rightarrow> gamma_state \<Rightarrow> error + gamma_state" where
  "encode_gammas [] st = Inr st"
| "encode_gammas (r # rs) st =
     (case encode_gamma r st of Inl e \<Rightarrow> Inl e | Inr st' \<Rightarrow> encode_gammas rs st')"

definition writeRunLengths :: "uint32 list \<Rightarrow> HuffmanEncoder \<Rightarrow> error + HuffmanEncoder" where
  "writeRunLengths runlen enc =
     (case encode_gammas runlen (0, 0, enc) of
        Inl e \<Rightarrow> Inl e
      | Inr st \<Rightarrow>
          (case write_bytes_while 7 st of
             Inl e \<Rightarrow> Inl e
           | Inr (buffer, bitsInBuffer, enc1) \<Rightarrow>
               if 0 < bitsInBuffer
               then Inr (write_counted (ucast (push_bit (nat (8 - bitsInBuffer)) buffer AND 0xff)) enc1)
               else Inr enc1))"

text \<open>
  The decoder counts the zero bits up to the first one bit, reads as many bits again into
  \<^verbatim>\<open>value\<close> and sets the bit above them with \<^verbatim>\<open>1 << zeros\<close>, a shift of a 32-bit \<^verbatim>\<open>int\<close> that
  is defined up to a count of 30.  The result is stored in a \<^verbatim>\<open>uint32\<close>.
\<close>

function count_zeros :: "nat \<Rightarrow> RawInStream \<Rightarrow> error + (nat \<times> RawInStream)" where
  "count_zeros zeros s =
     (case readBit s of
        Inl e \<Rightarrow> Inl e
      | Inr (b, s') \<Rightarrow> if b then Inr (zeros, s') else count_zeros (zeros + 1) s')"
  by pat_completeness auto
termination
  by (relation "measure (\<lambda>(zeros, s). length (bitBuffer s) + 8 * length (input s))")
     (auto simp add: readBit_def bits_of_byte_def split: list.splits)

fun read_value :: "nat \<Rightarrow> uint64 \<Rightarrow> RawInStream \<Rightarrow> error + (uint64 \<times> RawInStream)" where
  "read_value 0 v s = Inr (v, s)"
| "read_value (Suc t) v s =
     (case readBit s of
        Inl e \<Rightarrow> Inl e
      | Inr (b, s') \<Rightarrow> read_value t (push_bit 1 v OR (if b then 1 else 0)) s')"

definition read_gamma :: "RawInStream \<Rightarrow> error + (uint32 \<times> RawInStream)" where
  "read_gamma s =
     (case count_zeros 0 s of
        Inl e \<Rightarrow> Inl e
      | Inr (zeros, s1) \<Rightarrow>
          (case read_value zeros 0 s1 of
             Inl e \<Rightarrow> Inl e
           | Inr (v, s2) \<Rightarrow>
               if 31 \<le> zeros then Inl UndefinedShift
               else Inr (ucast (v OR push_bit zeros 1), s2)))"

fun read_runlens :: "nat \<Rightarrow> RawInStream \<Rightarrow> error + (uint32 list \<times> RawInStream)" where
  "read_runlens 0 s = Inr ([], flushBuffer s)"
| "read_runlens (Suc k) s =
     (case read_gamma s of
        Inl e \<Rightarrow> Inl e
      | Inr (r, s') \<Rightarrow>
          (case read_runlens k s' of
             Inl e \<Rightarrow> Inl e
           | Inr (rs, s'') \<Rightarrow> Inr (r # rs, s'')))"

text \<open>
  The Elias gamma code in the words of the specification: as many zeros as the floor of
  the binary logarithm of \<open>n\<close>, then the binary representation of \<open>n\<close>, most significant
  digit first.
\<close>

fun binary :: "nat \<Rightarrow> bool list" where
  "binary n = (if n < 2 then [n = 1] else binary (n div 2) @ [odd n])"

definition gamma_code :: "nat \<Rightarrow> bool list" where
  "gamma_code n = replicate (logFloor n) False @ binary n"

text \<open>
  For the proofs: the bits of the encoder's buffer from position \<open>hi - 1\<close> down to \<open>lo\<close>.
\<close>

definition window :: "uint64 \<Rightarrow> nat \<Rightarrow> nat \<Rightarrow> bool list" where
  "window buffer lo hi = map (bit buffer) (rev [lo..<hi])"

subsection \<open>The frequency table (\<^verbatim>\<open>FreqTable\<close> in \<^verbatim>\<open>preprocessors/preprocessor.cc\<close>)\<close>

text \<open>
  \<^verbatim>\<open>freq_\<close> holds 256 pairs of a byte and its count, \<^verbatim>\<open>location_\<close> the index in \<^verbatim>\<open>freq_\<close> of
  each byte (the fields \<open>freq\<close> and \<open>location\<close> of the record).  Both are C arrays of
  256 entries, here lists; the theorems are about tables
  whose lists have that length and whose locations point into \<^verbatim>\<open>freq_\<close>, so that every
  index of the model lies inside its array, as in the program.
\<close>

record FreqTable =
  freq :: "(byte \<times> uint64) list"
  location :: "nat list"

text \<open>
  \<^verbatim>\<open>InitLocations\<close> writes the index of every entry at the place of its key.
\<close>

definition InitLocations :: "FreqTable \<Rightarrow> FreqTable" where
  "InitLocations t =
     t\<lparr>location := fold (\<lambda>i loc. loc[unat (fst (freq t ! i)) := i]) [0..<256] (location t)\<rparr>"

text \<open>
  The constructor from an array of 256 frequencies.  \<^verbatim>\<open>std::sort\<close> leaves the order of
  entries with equal counts open; the model sorts stably.  The array \<^verbatim>\<open>location_\<close> starts
  uninitialised in the program and is here filled with zeros before \<^verbatim>\<open>InitLocations\<close>
  overwrites it.
\<close>

definition FreqTable_from :: "uint64 list \<Rightarrow> FreqTable" where
  "FreqTable_from frequencies =
     InitLocations
       \<lparr>freq = sort_key snd (map (\<lambda>i. (of_nat i, frequencies ! i)) [0..<256]),
        location = replicate 256 0\<rparr>"

definition freq_at :: "FreqTable \<Rightarrow> nat \<Rightarrow> error + uint64" where
  "freq_at t i = (if i \<le> 255 then Inr (snd (freq t ! i)) else Inl AssertionFailed)"

definition Key :: "FreqTable \<Rightarrow> nat \<Rightarrow> error + byte" where
  "Key t i = (if i < 256 then Inr (fst (freq t ! i)) else Inl AssertionFailed)"

text \<open>
  The loop of \<^verbatim>\<open>Decrease\<close> moves the entries with a larger count one place up, over the
  place of the entry being decreased; \<^verbatim>\<open>freq_index\<close> ends at the place where that entry
  goes.  The loop of \<^verbatim>\<open>Increase\<close> mirrors it.
\<close>

function Decrease_loop :: "uint64 \<Rightarrow> FreqTable \<Rightarrow> nat \<Rightarrow> FreqTable \<times> nat" where
  "Decrease_loop new_value t freq_index =
     (if freq_index > 0 \<and> new_value < snd (freq t ! (freq_index - 1))
      then let k = unat (fst (freq t ! (freq_index - 1)))
           in Decrease_loop new_value
                (t\<lparr>location := (location t)[k := location t ! k + 1],
                    freq := (freq t)[freq_index := freq t ! (freq_index - 1)]\<rparr>)
                (freq_index - 1)
      else (t, freq_index))"
  by pat_completeness auto
termination
  by (relation "measure (\<lambda>(new_value, t, freq_index). freq_index)") auto

definition Decrease :: "nat \<Rightarrow> uint64 \<Rightarrow> FreqTable \<Rightarrow> error + (bool \<times> FreqTable)" where
  "Decrease key val t =
     (if \<not> key \<le> 255 then Inl AssertionFailed
      else let freq_index = location t ! key
           in if snd (freq t ! freq_index) < val then Inr (False, t)
              else let new_value = snd (freq t ! freq_index) - val;
                       new_pair = (fst (freq t ! freq_index), new_value);
                       (t1, freq_index1) = Decrease_loop new_value t freq_index;
                       t2 = t1\<lparr>freq := (freq t1)[freq_index1 := new_pair],
                               location := (location t1)[unat (fst new_pair) := freq_index1]\<rparr>
                   in if fst (freq t2 ! (location t2 ! unat (fst new_pair))) = fst new_pair
                      then Inr (True, t2) else Inl AssertionFailed)"

function Increase_loop :: "uint64 \<Rightarrow> FreqTable \<Rightarrow> nat \<Rightarrow> FreqTable \<times> nat" where
  "Increase_loop new_value t freq_index =
     (if freq_index < 255 \<and> new_value > snd (freq t ! (freq_index + 1))
      then let k = unat (fst (freq t ! (freq_index + 1)))
           in Increase_loop new_value
                (t\<lparr>location := (location t)[k := location t ! k - 1],
                    freq := (freq t)[freq_index := freq t ! (freq_index + 1)]\<rparr>)
                (freq_index + 1)
      else (t, freq_index))"
  by pat_completeness auto
termination
  by (relation "measure (\<lambda>(new_value, t, freq_index). 255 - freq_index)") auto

definition Increase :: "nat \<Rightarrow> uint64 \<Rightarrow> FreqTable \<Rightarrow> error + FreqTable" where
  "Increase key val t =
     (if \<not> key \<le> 255 then Inl AssertionFailed
      else let freq_index = location t ! key;
               new_value = snd (freq t ! freq_index) + val;
               new_pair = (fst (freq t ! freq_index), new_value);
               (t1, freq_index1) = Increase_loop new_value t freq_index;
               t2 = t1\<lparr>freq := (freq t1)[freq_index1 := new_pair],
                       location := (location t1)[unat (fst new_pair) := freq_index1]\<rparr>
           in if fst (freq t2 ! (location t2 ! unat (fst new_pair))) = fst new_pair
              then Inr t2 else Inl AssertionFailed)"

text \<open>
  The invariants of the table: 256 entries in both arrays, \<^verbatim>\<open>location_[freq_[i].first] == i\<close>
  for every index (what \<^verbatim>\<open>FreqTable::Test\<close> checks from the side of the keys), and counts in
  ascending order.  \<open>count_of\<close> is the count stored for a key.
\<close>

definition located :: "FreqTable \<Rightarrow> bool" where
  "located t =
     (length (freq t) = 256 \<and> length (location t) = 256 \<and>
      list_all (\<lambda>i. location t ! unat (fst (freq t ! i)) = i) [0..<256])"

definition ascending :: "FreqTable \<Rightarrow> bool" where
  "ascending t = sorted (map snd (freq t))"

definition count_of :: "FreqTable \<Rightarrow> nat \<Rightarrow> uint64" where
  "count_of t key = snd (freq t ! (location t ! key))"

text \<open>
  Sequences of operations on a table.  \<open>increases_fit\<close> says that no increase of the
  sequence takes a count beyond the largest 64-bit value.
\<close>

datatype table_op = IncreaseOp nat uint64 | DecreaseOp nat uint64

fun apply_op :: "table_op \<Rightarrow> FreqTable \<Rightarrow> error + FreqTable" where
  "apply_op (IncreaseOp key val) t = Increase key val t"
| "apply_op (DecreaseOp key val) t =
     (case Decrease key val t of Inl e \<Rightarrow> Inl e | Inr (ok, t') \<Rightarrow> Inr t')"

fun apply_ops :: "table_op list \<Rightarrow> FreqTable \<Rightarrow> error + FreqTable" where
  "apply_ops [] t = Inr t"
| "apply_ops (x # xs) t = (case apply_op x t of Inl e \<Rightarrow> Inl e | Inr t' \<Rightarrow> apply_ops xs t')"

fun op_key :: "table_op \<Rightarrow> nat" where
  "op_key (IncreaseOp key val) = key"
| "op_key (DecreaseOp key val) = key"

fun increases_fit :: "table_op list \<Rightarrow> FreqTable \<Rightarrow> bool" where
  "increases_fit [] t = True"
| "increases_fit (x # xs) t =
     ((case x of IncreaseOp key val \<Rightarrow> unat (count_of t key) + unat val < 2 ^ 64
               | DecreaseOp key val \<Rightarrow> True) \<and>
      (case apply_op x t of Inl e \<Rightarrow> True | Inr t' \<Rightarrow> increases_fit xs t'))"

text \<open>
  For the proofs: the state of a table inside the loops, where the place \<open>idx\<close> is free
  for the entry with key \<open>k\<close> that is being moved (every other entry is located and has
  another key; the other entries are in ascending order), and the entries that the
  constructor sorts.
\<close>

definition hole_ok :: "FreqTable \<Rightarrow> nat \<Rightarrow> byte \<Rightarrow> bool" where
  "hole_ok t idx k \<longleftrightarrow>
     idx < 256 \<and> length (freq t) = 256 \<and> length (location t) = 256 \<and>
     (\<forall>i<256. i \<noteq> idx \<longrightarrow> fst (freq t ! i) \<noteq> k \<and> location t ! unat (fst (freq t ! i)) = i)"

definition rest_sorted :: "FreqTable \<Rightarrow> nat \<Rightarrow> bool" where
  "rest_sorted t idx \<longleftrightarrow>
     (\<forall>i j. i < j \<and> j < 256 \<and> i \<noteq> idx \<and> j \<noteq> idx \<longrightarrow> snd (freq t ! i) \<le> snd (freq t ! j))"

definition initial_entries :: "uint64 list \<Rightarrow> (byte \<times> uint64) list" where
  "initial_entries frequencies = map (\<lambda>i. (of_nat i, frequencies ! i)) [0..<256]"

subsection \<open>Choosing the pairs to replace (\<^verbatim>\<open>commonpairs::FindReplaceablePairs\<close>)\<close>

text \<open>
  A pair of bytes is a 16-bit value, first byte in the high half; \<^verbatim>\<open>pair_freqs\<close> is the
  array of the 65536 pairs with their 32-bit frequencies.  \<open>first_byte\<close> and \<open>second_byte\<close>
  are the two expressions by which the source takes a pair apart.
\<close>

definition first_byte :: "uint16 \<Rightarrow> byte" where
  "first_byte p = ucast (drop_bit 8 (p AND 0xFF00))"

definition second_byte :: "uint16 \<Rightarrow> byte" where
  "second_byte p = ucast (p AND 0x00FF)"

record pairs_state =
  replaceable_pairs :: "(uint16 \<times> uint32) list"
  pair_freqs :: "(uint16 \<times> uint32) list"
  freqs :: FreqTable
  current_pair :: nat
  current_symbol :: nat
  limit :: nat

datatype 'a iteration = Continue 'a | Break 'a

text \<open>
  The scan of the pairs chosen so far for one that has the second byte of the candidate
  as its first byte, or the first byte of the candidate as its second byte.
\<close>

definition conflicting :: "(uint16 \<times> uint32) list \<Rightarrow> byte \<Rightarrow> byte \<Rightarrow> bool" where
  "conflicting chosen fst_b snd_b =
     list_ex (\<lambda>it. first_byte (fst it) = snd_b \<or> second_byte (fst it) = fst_b) chosen"

definition restore2 :: "byte \<Rightarrow> byte \<Rightarrow> uint64 \<Rightarrow> FreqTable \<Rightarrow> error + FreqTable" where
  "restore2 fst_b snd_b val t =
     (case Increase (unat fst_b) val t of
        Inl e \<Rightarrow> Inl e
      | Inr t1 \<Rightarrow> Increase (unat snd_b) val t1)"

text \<open>
  One pass through the body of the \<^verbatim>\<open>while\<close> loop.  \<^verbatim>\<open>std::partial_sort\<close> is the parameter
  \<open>partial_sort\<close>: given the indices of the first and of the middle element it rearranges
  the array so that the range between them holds, in descending order of frequency, the
  most frequent pairs from the first index on; the order it gives to equal frequencies
  and to the rest of the array is open, and nothing proved below depends on it.
  \<open>Continue\<close> stands for reaching the end of the body or a \<^verbatim>\<open>continue\<close>, \<open>Break\<close> for the
  \<^verbatim>\<open>break\<close> under condition (p1).
\<close>

definition FindReplaceablePairs_body ::
  "(nat \<Rightarrow> nat \<Rightarrow> (uint16 \<times> uint32) list \<Rightarrow> (uint16 \<times> uint32) list) \<Rightarrow>
   pairs_state \<Rightarrow> error + pairs_state iteration" where
  "FindReplaceablePairs_body partial_sort st =
     (let resort = (current_pair st + 1 \<ge> limit st);
          limit1 = (if resort then limit st + 256 else limit st)
      in if resort \<and> \<not> limit1 < 65536 then Inl AssertionFailed
         else
           let pair_freqs1 = (if resort then partial_sort (current_pair st) limit1 (pair_freqs st)
                              else pair_freqs st);
               st1 = st\<lparr>pair_freqs := pair_freqs1, limit := limit1\<rparr>;
               candidate = pair_freqs1 ! current_pair st;
               fst_b = first_byte (fst candidate);
               snd_b = second_byte (fst candidate);
               val = (ucast (snd candidate) :: uint64);
               next = (\<lambda>s. s\<lparr>current_pair := current_pair s + 1\<rparr>)
           in if fst_b = snd_b then Inr (Continue (next st1))
              else case Decrease (unat fst_b) val (freqs st1) of
                Inl e \<Rightarrow> Inl e
              | Inr (ok1, t1) \<Rightarrow>
                  if \<not> ok1 then Inr (Continue (next (st1\<lparr>freqs := t1\<rparr>)))
                  else case Decrease (unat snd_b) val t1 of
                    Inl e \<Rightarrow> Inl e
                  | Inr (ok2, t2) \<Rightarrow>
                      if \<not> ok2
                      then (case Increase (unat fst_b) val t2 of
                              Inl e \<Rightarrow> Inl e
                            | Inr t3 \<Rightarrow> Inr (Continue (next (st1\<lparr>freqs := t3\<rparr>))))
                      else case freq_at t2 (current_symbol st1) of
                        Inl e \<Rightarrow> Inl e
                      | Inr rare \<Rightarrow>
                          if rare + 3 \<ge> val
                          then (case restore2 fst_b snd_b val t2 of
                                  Inl e \<Rightarrow> Inl e
                                | Inr t3 \<Rightarrow> Inr (Break (st1\<lparr>freqs := t3\<rparr>)))
                          else if conflicting (replaceable_pairs st1) fst_b snd_b
                          then (case restore2 fst_b snd_b val t2 of
                                  Inl e \<Rightarrow> Inl e
                                | Inr t3 \<Rightarrow> Inr (Continue (next (st1\<lparr>freqs := t3\<rparr>))))
                          else Inr (Continue (next
                                 (st1\<lparr>freqs := t2,
                                      replaceable_pairs := replaceable_pairs st1 @ [candidate],
                                      current_symbol := current_symbol st1 + 1\<rparr>))))"

text \<open>
  The loop stops with 254 pairs, at the \<^verbatim>\<open>break\<close>, or when \<^verbatim>\<open>assert(limit < 65536)\<close> fails;
  \<^verbatim>\<open>current_pair\<close> grows in every pass and \<^verbatim>\<open>limit\<close> stays ahead of it by at most 256.
\<close>

function FindReplaceablePairs_loop ::
  "(nat \<Rightarrow> nat \<Rightarrow> (uint16 \<times> uint32) list \<Rightarrow> (uint16 \<times> uint32) list) \<Rightarrow>
   pairs_state \<Rightarrow> error + pairs_state" where
  "FindReplaceablePairs_loop partial_sort st =
     (if length (replaceable_pairs st) < 254
      then (case FindReplaceablePairs_body partial_sort st of
              Inl e \<Rightarrow> Inl e
            | Inr (Break st') \<Rightarrow> Inr st'
            | Inr (Continue st') \<Rightarrow> FindReplaceablePairs_loop partial_sort st')
      else Inr st)"
  by pat_completeness auto
termination
proof (relation "measures [\<lambda>(ps, st). 65536 - limit st, \<lambda>(ps, st). limit st - current_pair st]")
  show "wf (measures [\<lambda>(ps, st). 65536 - limit st, \<lambda>(ps, st). limit st - current_pair st])"
    by simp
next
  fix partial_sort :: "nat \<Rightarrow> nat \<Rightarrow> (uint16 \<times> uint32) list \<Rightarrow> (uint16 \<times> uint32) list"
    and st :: pairs_state and x2 st'
  assume "FindReplaceablePairs_body partial_sort st = Inr x2" and "x2 = Continue st'"
  then have b: "FindReplaceablePairs_body partial_sort st = Inr (Continue st')"
    by simp
  have "(limit st < limit st' \<and> limit st' < 65536) \<or>
        (limit st' = limit st \<and> current_pair st' = current_pair st + 1 \<and> current_pair st + 1 < limit st)"
    using b unfolding FindReplaceablePairs_body_def Let_def restore2_def
    by (auto split: if_splits sum.splits prod.splits)
  then show "((partial_sort, st'), (partial_sort, st)) \<in>
      measures [\<lambda>(ps, st). 65536 - limit st, \<lambda>(ps, st). limit st - current_pair st]"
    by auto
qed

text \<open>
  \<^verbatim>\<open>FindReplaceablePairs\<close> is called with an empty vector of pairs; its result is the vector
  of the chosen pairs, with the array and the table as the loop left them.
\<close>

definition FindReplaceablePairs ::
  "(nat \<Rightarrow> nat \<Rightarrow> (uint16 \<times> uint32) list \<Rightarrow> (uint16 \<times> uint32) list) \<Rightarrow>
   (uint16 \<times> uint32) list \<Rightarrow> FreqTable \<Rightarrow> error + pairs_state" where
  "FindReplaceablePairs partial_sort pair_freqs0 freqs0 =
     (case FindReplaceablePairs_loop partial_sort
             \<lparr>replaceable_pairs = [], pair_freqs = pair_freqs0, freqs = freqs0,
              current_pair = 0, current_symbol = 0, limit = 0\<rparr> of
        Inl e \<Rightarrow> Inl e
      | Inr st \<Rightarrow>
          if current_symbol st = length (replaceable_pairs st) then Inr st
          else Inl AssertionFailed)"

text \<open>
  The property of a list of chosen pairs that the source asks for: no first byte of a
  pair is the second byte of a pair of the list, the same pair included.
\<close>

definition conflict_free :: "(uint16 \<times> uint32) list \<Rightarrow> bool" where
  "conflict_free chosen =
     list_all (\<lambda>p. list_all (\<lambda>q. first_byte (fst p) \<noteq> second_byte (fst q)) chosen) chosen"

text \<open>
  An input to try the selection on.  The five largest bytes have the counts 50, 60, 300,
  300 and 400, every other byte the count 0, so that the table built from
  \<open>example_frequencies\<close> keeps the order of the bytes.  \<open>example_pair_freqs\<close> is the array of
  the 65536 pairs with the frequencies 350 for \<open>0xFFFF\<close>, 100 for \<open>0xFDFE\<close>, 40 for \<open>0xFBFC\<close>,
  5 for \<open>0xFCFD\<close> and 0 for every other pair, in descending order of frequency, which a
  partial sort may leave as it is (\<open>keep_order\<close>).  \<open>example_result\<close> is the state in which
  the selection ends on this input.
\<close>

definition example_frequencies :: "uint64 list" where
  "example_frequencies = replicate 251 0 @ [50, 60, 300, 300, 400]"

definition example_pair_freqs :: "(uint16 \<times> uint32) list" where
  "example_pair_freqs =
     map (\<lambda>i. if i = 0 then (0xFFFF, 350) else if i = 1 then (0xFDFE, 100)
              else if i = 2 then (0xFBFC, 40) else if i = 3 then (0xFCFD, 5)
              else if i = 0xFFFF then (0, 0) else if i = 0xFDFE then (1, 0)
              else if i = 0xFBFC then (2, 0) else if i = 0xFCFD then (3, 0)
              else (of_nat i, 0))
       [0..<65536]"

definition keep_order :: "nat \<Rightarrow> nat \<Rightarrow> (uint16 \<times> uint32) list \<Rightarrow> (uint16 \<times> uint32) list" where
  "keep_order first middle xs = xs"

definition example_entries :: "(byte \<times> uint64) list" where
  "example_entries =
     map (\<lambda>i. (of_nat i, 0)) [0..<251] @
     [(0xFB, 10), (0xFC, 20), (0xFD, 200), (0xFE, 200), (0xFF, 400)]"

definition example_result :: pairs_state where
  "example_result =
     \<lparr>replaceable_pairs = [(0xFDFE, 100), (0xFBFC, 40)], pair_freqs = example_pair_freqs,
      freqs = \<lparr>freq = example_entries, location = [0..<256]\<rparr>,
      current_pair = 4, current_symbol = 2, limit = 256\<rparr>"

text \<open>The state with which a pass through the body of the loop ends.\<close>

fun iteration_state :: "'a iteration \<Rightarrow> 'a" where
  "iteration_state (Continue s) = s"
| "iteration_state (Break s) = s"

subsection \<open>Replacing the common pairs (\<^verbatim>\<open>CompressCommonPairs\<close>)\<close>

text \<open>
  Lengths and indices of the block are 64-bit in the source and natural numbers here;
  where the source subtracts from one of them the wrap-around is written out.
  \<^verbatim>\<open>InitPairsWithValue\<close> fills the array of pairs, \<^verbatim>\<open>ComputePairFrequencies\<close> counts the
  bytes and the pairs of adjacent bytes of \<^verbatim>\<open>data[0, len)\<close>.
\<close>

definition InitPairsWithValue :: "uint32 \<Rightarrow> nat \<Rightarrow> (uint16 \<times> uint32) list" where
  "InitPairsWithValue v n = map (\<lambda>i. (of_nat i, v)) [0..<n]"

definition count_pair ::
  "byte list \<Rightarrow> nat \<Rightarrow> uint16 \<times> uint64 list \<times> (uint16 \<times> uint32) list \<Rightarrow>
   uint16 \<times> uint64 list \<times> (uint16 \<times> uint32) list" where
  "count_pair data i = (\<lambda>(index, frequencies, pair_frequencies).
     let frequencies1 = frequencies[unat (data ! i) := frequencies ! unat (data ! i) + 1];
         index1 = push_bit 8 index OR ucast (data ! i);
         entry = pair_frequencies ! unat index1
     in (index1, frequencies1, pair_frequencies[unat index1 := (fst entry, snd entry + 1)]))"

definition ComputePairFrequencies ::
  "byte list \<Rightarrow> uint64 list \<Rightarrow> (uint16 \<times> uint32) list \<Rightarrow> nat \<Rightarrow>
   uint64 list \<times> (uint16 \<times> uint32) list" where
  "ComputePairFrequencies data frequencies pair_frequencies len =
     (let index = (ucast (data ! 0) :: uint16);
          frequencies1 = frequencies[unat index := frequencies ! unat index + 1]
      in snd (fold (count_pair data) [1..<len] (index, frequencies1, pair_frequencies)))"

text \<open>
  \<^verbatim>\<open>EscapeCharIndex\<close>.  \<^verbatim>\<open>utility\<close> is a signed 64-bit integer to which unsigned 64-bit
  differences are added: a 64-bit word, compared as a signed number.  The function
  changes the table, which the model returns with the index.
\<close>

function EscapeCharIndex_sum ::
  "FreqTable \<Rightarrow> (uint16 \<times> uint32) list \<Rightarrow> uint64 \<Rightarrow> nat \<Rightarrow> error + (uint64 \<times> nat)" where
  "EscapeCharIndex_sum t suitable_pairs utility i =
     (if i < length suitable_pairs
      then (case freq_at t i of
              Inl e \<Rightarrow> Inl e
            | Inr c \<Rightarrow> EscapeCharIndex_sum t suitable_pairs
                        (utility + (ucast (snd (suitable_pairs ! i)) - c - 3)) (i + 1))
      else Inr (utility, i))"
  by pat_completeness auto
termination
  by (relation "measure (\<lambda>(t, suitable_pairs, utility, i). length suitable_pairs - i)") auto

function EscapeCharIndex_loop ::
  "FreqTable \<Rightarrow> (uint16 \<times> uint32) list \<Rightarrow> nat \<Rightarrow> uint64 \<Rightarrow> nat \<Rightarrow> error + (FreqTable \<times> nat)" where
  "EscapeCharIndex_loop t suitable_pairs free_symbols utility i =
     (case freq_at t i of
        Inl e \<Rightarrow> Inl e
      | Inr c \<Rightarrow>
          if sint utility \<le> sint c \<and> i > free_symbols
          then let i1 = i - 1;
                   fst_b = first_byte (fst (suitable_pairs ! i1));
                   snd_b = second_byte (fst (suitable_pairs ! i1));
                   val = (ucast (snd (suitable_pairs ! i1)) :: uint64)
               in case restore2 fst_b snd_b val t of
                    Inl e \<Rightarrow> Inl e
                  | Inr t2 \<Rightarrow>
                      (case freq_at t2 i1 of
                         Inl e \<Rightarrow> Inl e
                       | Inr c1 \<Rightarrow> EscapeCharIndex_loop t2 suitable_pairs free_symbols
                                     (utility - (val - c1 - 3)) i1)
          else Inr (t, i))"
  by pat_completeness auto
termination
  by (relation "measure (\<lambda>(t, suitable_pairs, free_symbols, utility, i). i)") auto

definition EscapeCharIndex ::
  "FreqTable \<Rightarrow> (uint16 \<times> uint32) list \<Rightarrow> nat \<Rightarrow> error + (FreqTable \<times> nat)" where
  "EscapeCharIndex t suitable_pairs free_symbols =
     (if length suitable_pairs \<le> free_symbols then Inr (t, free_symbols)
      else case EscapeCharIndex_sum t suitable_pairs 0 free_symbols of
             Inl e \<Rightarrow> Inl e
           | Inr (utility, i) \<Rightarrow> EscapeCharIndex_loop t suitable_pairs free_symbols utility i)"

definition WriteBytes :: "uint16 \<Rightarrow> byte list" where
  "WriteBytes v = [ucast (drop_bit 8 v), ucast (v AND 0xFF)]"

text \<open>
  \<^verbatim>\<open>WriteReplacements\<close>.  The array \<^verbatim>\<open>to\<close> is the list of the bytes written so far, and the
  result the list at the end, whose length is the \<^verbatim>\<open>result_index\<close> that the source
  returns.  \<open>last_index\<close> is the 64-bit \<^verbatim>\<open>length - 1\<close>.  The \<^verbatim>\<open>while(1)\<close> loop goes on only as
  long as \<^verbatim>\<open>i\<close> is below \<^verbatim>\<open>length - 1\<close>.
\<close>

definition last_index :: "nat \<Rightarrow> nat" where
  "last_index len = (len + 2 ^ 64 - 1) mod 2 ^ 64"

function WriteReplacements_loop ::
  "byte list \<Rightarrow> byte list \<Rightarrow> nat \<Rightarrow> byte \<Rightarrow> byte \<Rightarrow> byte list \<Rightarrow> uint16 \<Rightarrow> nat \<Rightarrow>
   error + byte list" where
  "WriteReplacements_loop replacements from len common_byte escape_byte to pair i =
     (let pair1 = push_bit 8 pair OR ucast (from ! i);
          r = replacements ! unat pair1
      in if r \<noteq> common_byte \<and> r \<noteq> escape_byte \<and> i = last_index len then Inr (to @ [r])
         else
           let to1 = (if r = common_byte then to @ [from ! (i - 1)]
                      else if r = escape_byte then to @ [escape_byte, from ! (i - 1)]
                      else to @ [r]);
               pair2 = (if r = common_byte \<or> r = escape_byte then pair1
                        else ucast (from ! (i + 1)));
               i1 = (if r = common_byte \<or> r = escape_byte then i else i + 1)
           in if i1 \<ge> last_index len
              then if i1 \<noteq> last_index len then Inl AssertionFailed
                   else Inr (to1 @
                          (if from ! i1 = escape_byte \<and> escape_byte \<noteq> common_byte
                           then [escape_byte] else []) @ [from ! i1])
              else WriteReplacements_loop replacements from len common_byte escape_byte
                     to1 pair2 (i1 + 1))"
  by pat_completeness auto
termination
  by (relation "measure (\<lambda>(replacements, from, len, common_byte, escape_byte, to, pair, i).
                  last_index len - i)")
    (auto split: if_splits)

definition WriteReplacements ::
  "byte list \<Rightarrow> byte list \<Rightarrow> nat \<Rightarrow> byte \<Rightarrow> byte \<Rightarrow> error + byte list" where
  "WriteReplacements replacements from len common_byte escape_byte =
     WriteReplacements_loop replacements from len common_byte escape_byte []
       (ucast (from ! 0)) 1"

text \<open>
  The parts of \<^verbatim>\<open>CompressCommonPairs\<close>.  \<open>fold_result\<close> runs a loop whose body may fail an
  assertion.  \<open>count_free\<close> is the loop that counts the symbols of frequency 0.
  \<open>take_symbol\<close> is what both loops of the header do for the pair of index \<open>k\<close>: the pair gets
  the \<open>k\<close>-th key of the table as its replacement, and the key and the pair go to the
  header.  \<open>escape_pairs_of\<close> marks the pairs that begin with the \<open>i\<close>-th key and have no
  replacement.
\<close>

fun fold_result :: "('a \<Rightarrow> 's \<Rightarrow> error + 's) \<Rightarrow> 'a list \<Rightarrow> 's \<Rightarrow> error + 's" where
  "fold_result f [] s = Inr s"
| "fold_result f (x # xs) s = (case f x s of Inl e \<Rightarrow> Inl e | Inr s' \<Rightarrow> fold_result f xs s')"

function count_free :: "FreqTable \<Rightarrow> nat \<Rightarrow> error + nat" where
  "count_free t free_symbols =
     (case freq_at t free_symbols of
        Inl e \<Rightarrow> Inl e
      | Inr c \<Rightarrow> if c = 0 then count_free t (free_symbols + 1) else Inr free_symbols)"
  by pat_completeness auto
termination
  by (relation "measure (\<lambda>(t, free_symbols). 256 - free_symbols)")
    (auto simp add: freq_at_def split: if_splits)

definition take_symbol ::
  "FreqTable \<Rightarrow> (uint16 \<times> uint32) list \<Rightarrow> byte \<Rightarrow> byte \<Rightarrow> nat \<Rightarrow>
   byte list \<times> byte list \<Rightarrow> error + (byte list \<times> byte list)" where
  "take_symbol t replaceable common_byte escape_byte k = (\<lambda>(replacements, temp).
     case Key t k of
       Inl e \<Rightarrow> Inl e
     | Inr key \<Rightarrow>
         if key = common_byte \<or> key = escape_byte then Inl AssertionFailed
         else Inr (replacements[unat (fst (replaceable ! k)) := key],
                   temp @ [key] @ WriteBytes (fst (replaceable ! k))))"

definition escape_pairs_of :: "byte \<Rightarrow> byte \<Rightarrow> byte \<Rightarrow> byte list \<Rightarrow> byte list" where
  "escape_pairs_of key common_byte escape_byte replacements =
     fold (\<lambda>j r. let pair_value = (push_bit 8 (ucast key) + of_nat j :: uint16)
                 in if r ! unat pair_value = common_byte
                    then r[unat pair_value := escape_byte] else r)
       [0..<256] replacements"

definition free_symbol ::
  "FreqTable \<Rightarrow> (uint16 \<times> uint32) list \<Rightarrow> byte \<Rightarrow> byte \<Rightarrow> nat \<Rightarrow> nat \<Rightarrow>
   byte list \<times> byte list \<Rightarrow> error + (byte list \<times> byte list)" where
  "free_symbol t replaceable common_byte escape_byte escape_index i = (\<lambda>(replacements, temp).
     case Key t i of
       Inl e \<Rightarrow> Inl e
     | Inr key \<Rightarrow>
         let replacements1 = escape_pairs_of key common_byte escape_byte replacements
         in if i < escape_index
            then take_symbol t replaceable common_byte escape_byte i (replacements1, temp)
            else Inr (replacements1, temp))"

text \<open>
  \<^verbatim>\<open>CompressCommonPairs\<close>.  Both sorts of the standard library are parameters: \<open>std_sort\<close> is
  the \<^verbatim>\<open>std::sort\<close> of the constructor of the table, which may put entries of equal count in
  any order (\<open>FreqTable_with\<close> is that constructor; \<open>FreqTable_from\<close> is the case of a stable
  sort), and \<open>partial_sort\<close> the \<^verbatim>\<open>std::partial_sort\<close> of \<^verbatim>\<open>FindReplaceablePairs\<close>.
  \<^verbatim>\<open>from\<close> is the whole array, of which the block is \<^verbatim>\<open>from[0, length)\<close>.  The result is the
  contents of \<^verbatim>\<open>temp\<close> that the source copies to \<^verbatim>\<open>from\<close>, and the returned \<^verbatim>\<open>total_size\<close> is
  its length.  \<^verbatim>\<open>temp\<close> has \<^verbatim>\<open>length + 3\<close> bytes, which the last assertion compares with what
  was written.
\<close>

definition FreqTable_with ::
  "((byte \<times> uint64) list \<Rightarrow> (byte \<times> uint64) list) \<Rightarrow> uint64 list \<Rightarrow> FreqTable" where
  "FreqTable_with std_sort frequencies =
     InitLocations
       \<lparr>freq = std_sort (map (\<lambda>i. (of_nat i, frequencies ! i)) [0..<256]),
        location = replicate 256 0\<rparr>"

definition CompressCommonPairs ::
  "((byte \<times> uint64) list \<Rightarrow> (byte \<times> uint64) list) \<Rightarrow>
   (nat \<Rightarrow> nat \<Rightarrow> (uint16 \<times> uint32) list \<Rightarrow> (uint16 \<times> uint32) list) \<Rightarrow>
   byte list \<Rightarrow> nat \<Rightarrow> error + byte list" where
  "CompressCommonPairs std_sort partial_sort from len =
     (if \<not> len > 0 then Inl AssertionFailed
      else
        let (freq0, pair_freq) =
              ComputePairFrequencies from (replicate 256 0) (InitPairsWithValue 0 65536) len;
            table = FreqTable_with std_sort freq0
        in case count_free table 0 of
             Inl e \<Rightarrow> Inl e
           | Inr free_symbols \<Rightarrow>
        (case FindReplaceablePairs partial_sort pair_freq table of
             Inl e \<Rightarrow> Inl e
           | Inr st \<Rightarrow>
        (case (if length (replaceable_pairs st) > free_symbols
               then EscapeCharIndex (freqs st) (replaceable_pairs st) free_symbols
               else Inr (freqs st, free_symbols)) of
             Inl e \<Rightarrow> Inl e
           | Inr (t, escape_index) \<Rightarrow>
        (case Key t 255 of
             Inl e \<Rightarrow> Inl e
           | Inr common_byte \<Rightarrow>
        (case (if escape_index > free_symbols then Key t escape_index else Inr common_byte) of
             Inl e \<Rightarrow> Inl e
           | Inr escape_byte \<Rightarrow>
        let replaceable = replaceable_pairs st;
            candidates = length replaceable;
            k = min free_symbols candidates
        in case fold_result (take_symbol t replaceable common_byte escape_byte) [0..<k]
                  (replicate 65536 common_byte, []) of
             Inl e \<Rightarrow> Inl e
           | Inr header1 \<Rightarrow>
        (case (if free_symbols < escape_index
               then fold_result (free_symbol t replaceable common_byte escape_byte escape_index)
                      [free_symbols..<escape_index + 1] header1
               else Inr header1) of
             Inl e \<Rightarrow> Inl e
           | Inr (replacements, temp) \<Rightarrow>
        let symbols_in_use =
              (if free_symbols < escape_index then k + (escape_index - free_symbols + 1) else k);
            new_symbols =
              (if free_symbols = escape_index then 0
               else (symbols_in_use + 2 ^ 32 - free_symbols) mod 2 ^ 32)
        in case (if new_symbols > 0 then Key t ((escape_index + 2 ^ 32 - 1) mod 2 ^ 32)
                 else if symbols_in_use > 0 then Key t (symbols_in_use - 1)
                 else Inr (escape_byte + 1)) of
             Inl e \<Rightarrow> Inl e
           | Inr dummy \<Rightarrow>
        let temp1 = temp @ [dummy] @
              (if free_symbols < escape_index then [escape_byte]
               else if symbols_in_use = 0 then [dummy, dummy] else [dummy])
        in case WriteReplacements replacements from len common_byte escape_byte of
             Inl e \<Rightarrow> Inl e
           | Inr payload \<Rightarrow>
               if \<not> length temp1 + length payload \<le> len + 3 then Inl AssertionFailed
               else Inr (temp1 @ payload)))))))"


section \<open>Properties\<close>

subsection \<open>Packed integers\<close>

declare PackInteger_loop.simps [simp del] UnpackInteger_loop.simps [simp del]

lemma and_7F: "(x::64 word) AND 0x7F = take_bit 7 x"
  by (simp add: take_bit_eq_mask mask_eq_exp_minus_1)



lemma bit_128: "bit (128 :: int) n = (n = 7)"
proof -
  have "bit (2 ^ 7 :: int) n = (n = 7)"
    by (simp only: bit_exp_iff) auto
  then show ?thesis by simp
qed

lemma and_80_iff: "((x::64 word) AND 0x80 \<noteq> 0) = bit x 7"
proof -
  have "x AND 0x80 = (if bit x 7 then 0x80 else 0)"
    by (rule bit_eqI) (auto simp add: bit_and_iff bit_128)
  then show ?thesis by simp
qed

lemma pack_byte_at:
  fixes r result b :: "64 word"
  assumes "take_bit (8 * i + 8) r = result OR push_bit (8 * i) b"
    and "take_bit (8 * i) result = result"
    and "take_bit 8 b = b" and "i < 8"
  shows "take_bit 8 (drop_bit (8 * i) r) = b"
proof (rule bit_eqI)
  fix n
  assume "possible_bit TYPE(64 word) n"
  have r: "\<And>m. bit result m \<Longrightarrow> m < 8 * i"
    using assms(2) by (metis bit_take_bit_iff)
  have b: "\<And>m. bit b m \<Longrightarrow> m < 8"
    using assms(3) by (metis bit_take_bit_iff)
  have "bit (take_bit (8 * i + 8) r) (8 * i + n) = bit (result OR push_bit (8 * i) b) (8 * i + n)"
    using assms(1) by simp
  then show "bit (take_bit 8 (drop_bit (8 * i) r)) n = bit b n"
    using r[of "8 * i + n"] b[of n] \<open>i < 8\<close>
    by (auto simp add: bit_simps)
qed

lemma pack_prefix_kept:
  fixes r result b :: "64 word"
  assumes "take_bit (8 * i + 8) r = result OR push_bit (8 * i) b"
    and "take_bit (8 * i) result = result"
  shows "take_bit (8 * i) r = result"
proof (rule bit_eqI)
  fix n
  assume "possible_bit TYPE(64 word) n"
  have r: "\<And>m. bit result m \<Longrightarrow> m < 8 * i"
    using assms(2) by (metis bit_take_bit_iff)
  have "bit (take_bit (8 * i + 8) r) n = bit (result OR push_bit (8 * i) b) n"
    using assms(1) by simp
  then show "bit (take_bit (8 * i) r) n = bit result n"
    using r[of n]
    by (auto simp add: bit_simps)
qed

lemma split7: "push_bit k (take_bit 7 (x::64 word)) OR push_bit (k + 7) (drop_bit 7 x) = push_bit k x"
proof (rule bit_eqI)
  fix n
  assume "possible_bit TYPE(64 word) n"
  show "bit (push_bit k (take_bit 7 x) OR push_bit (k + 7) (drop_bit 7 x)) n = bit (push_bit k x) n"
  proof (cases "n - k < 7")
    case True
    then show ?thesis by (auto simp add: bit_simps)
  next
    case False
    then have "7 + (n - (k + 7)) = n - k" "k + 7 \<le> n" by auto
    then show ?thesis using False by (auto simp add: bit_simps)
  qed
qed

lemma b_props:
  fixes x :: "64 word"
  defines "b \<equiv> take_bit 7 x OR (if drop_bit 7 x \<noteq> 0 then 0x80 else 0)"
  shows "take_bit 8 b = b" "take_bit 7 b = take_bit 7 x" "bit b 7 = (drop_bit 7 x \<noteq> 0)"
proof -
  show "take_bit 8 b = b" unfolding b_def
    by (rule bit_eqI) (auto simp add: bit_simps bit_128)
  show "take_bit 7 b = take_bit 7 x" unfolding b_def 
    by (rule bit_eqI) (auto simp add: bit_simps bit_128)
  show "bit b 7 = (drop_bit 7 x \<noteq> 0)" unfolding b_def
    by (auto simp add: bit_simps bit_128)
qed



lemma byte_low: "take_bit 7 (take_bit 8 (p::64 word)) = take_bit 7 p" 
  by simp

lemma bit7_take8: "bit (take_bit 8 (p::64 word)) 7 = bit p 7"
  by (simp add: bit_simps)

lemma take7_self: "drop_bit 7 (x::64 word) = 0 \<Longrightarrow> take_bit 7 x = x"
  using split7[of 0 x] by simp

lemma Unpack_step:
  fixes P :: "64 word"
  assumes "bh + 7 \<le> 56"
  shows "UnpackInteger_loop P bh acc =
     (if bit P 7 then UnpackInteger_loop (drop_bit 8 P) (bh + 7) (acc OR push_bit bh (take_bit 7 P))
      else Inr (acc OR push_bit bh (take_bit 7 P)))"
  using assms
  by (subst UnpackInteger_loop.simps) (simp add: Let_def and_7F and_80_iff)

lemma Pack_step:
  assumes "x \<noteq> 0" "i < 8"
  shows "PackInteger_loop x i result =
     PackInteger_loop (drop_bit 7 x) (i + 1)
       (result OR push_bit (8 * i) (take_bit 7 x OR (if drop_bit 7 x \<noteq> 0 then 0x80 else 0)))"
proof -
  have i: "\<not> 8 \<le> i" using assms(2) by simp
  have c: "i * 8 = 8 * i" by simp
  show ?thesis
  proof (cases "drop_bit 7 x = 0")
    case True
    show ?thesis
      apply (subst PackInteger_loop.simps)
      apply (simp only: Let_def assms(1) i True if_False if_True and_7F c not_True_eq_False or.right_neutral simp_thms)
      done
  next
    case False
    show ?thesis
      apply (subst PackInteger_loop.simps)
      apply (simp only: Let_def assms(1) i False if_False if_True and_7F c not_False_eq_True push_bit_or or.assoc simp_thms)
      done
  qed
qed

lemma pack_unpack_loop:
  "i \<le> 8 \<Longrightarrow> drop_bit (7 * (8 - i)) x = 0 \<Longrightarrow> take_bit (8 * i) result = result \<Longrightarrow>
   \<exists>r j. PackInteger_loop x i result = Inr (r, j) \<and> take_bit (8 * i) r = result \<and>
     (x \<noteq> 0 \<longrightarrow> (\<forall>acc. UnpackInteger_loop (drop_bit (8 * i) r) (7 * i) acc = Inr (acc OR push_bit (7 * i) x)))"
proof (induction "8 - i" arbitrary: i x result)
  case 0
  then have "x = 0" by simp
  then show ?case using "0.prems"(3) by (subst PackInteger_loop.simps) simp
next
  case (Suc k)
  show ?case
  proof (cases "x = 0")
    case True
    then show ?thesis using Suc.prems(3) by (subst PackInteger_loop.simps) simp
  next
    case False
    have i8: "i < 8" using Suc.hyps(2) by simp
    define b where "b = take_bit 7 x OR (if drop_bit 7 x \<noteq> 0 then 0x80 else 0)"
    define result2 where "result2 = result OR push_bit (8 * i) b"
    define x1 where "x1 = drop_bit 7 x"
    have bp: "take_bit 8 b = b" "take_bit 7 b = take_bit 7 x" "bit b 7 = (x1 \<noteq> 0)"
      unfolding b_def x1_def by (rule b_props)+
    have step: "PackInteger_loop x i result = PackInteger_loop x1 (i + 1) result2"
      unfolding result2_def b_def x1_def by (rule Pack_step[OF False i8])
    have k: "k = 8 - (i + 1)" using Suc.hyps(2) by simp
    have p1: "i + 1 \<le> 8" using i8 by simp
    have "7 * (8 - (i + 1)) + 7 = 7 * (8 - i)" using i8 by simp
    then have p2: "drop_bit (7 * (8 - (i + 1))) x1 = 0"
      unfolding x1_def using Suc.prems(2) by (simp add: drop_bit_drop_bit add.commute)
    have p3: "take_bit (8 * (i + 1)) result2 = result2"
    proof (rule bit_eqI)
      fix n assume "possible_bit TYPE(64 word) n"
      have r: "\<And>m. bit result m \<Longrightarrow> m < 8 * i"
        using Suc.prems(3) by (metis bit_take_bit_iff)
      have b: "\<And>m. bit b m \<Longrightarrow> m < 8"
        using bp(1) by (metis bit_take_bit_iff)
      show "bit (take_bit (8 * (i + 1)) result2) n = bit result2 n"
        using r[of n] b[of "n - 8 * i"] unfolding result2_def
        by (auto simp add: bit_simps)
    qed
    from Suc.hyps(1)[OF k p1 p2 p3] obtain r j where
      r1: "PackInteger_loop x1 (i + 1) result2 = Inr (r, j)"
      and r2: "take_bit (8 * (i + 1)) r = result2"
      and r3: "x1 \<noteq> 0 \<longrightarrow> (\<forall>acc. UnpackInteger_loop (drop_bit (8 * (i + 1)) r) (7 * (i + 1)) acc
                 = Inr (acc OR push_bit (7 * (i + 1)) x1))"
      by blast
    have r2': "take_bit (8 * i + 8) r = result OR push_bit (8 * i) b"
      using r2 unfolding result2_def by (simp add: add.commute)
    have t1: "take_bit (8 * i) r = result"
      by (rule pack_prefix_kept[OF r2' Suc.prems(3)])
    define P where "P = drop_bit (8 * i) r"
    have P8: "take_bit 8 P = b"
      unfolding P_def by (rule pack_byte_at[OF r2' Suc.prems(3) bp(1) i8])
    have P7: "take_bit 7 P = take_bit 7 x"
      using byte_low[of P] P8 bp(2) by simp
    have Pb: "bit P 7 = (x1 \<noteq> 0)"
      using bit7_take8[of P] P8 bp(3) by simp
    have Pd: "drop_bit 8 P = drop_bit (8 * (i + 1)) r"
      unfolding P_def by (simp add: drop_bit_drop_bit add.commute)
    have bh: "7 * i + 7 \<le> 56" using i8 by simp
    have u: "UnpackInteger_loop P (7 * i) acc = Inr (acc OR push_bit (7 * i) x)" for acc
    proof (cases "x1 = 0")
      case True
      then have "take_bit 7 x = x" unfolding x1_def by (rule take7_self)
      then show ?thesis using True Pb P7 by (simp add: Unpack_step[OF bh])
    next
      case False
      have "UnpackInteger_loop P (7 * i) acc =
          UnpackInteger_loop (drop_bit (8 * (i + 1)) r) (7 * (i + 1)) (acc OR push_bit (7 * i) (take_bit 7 x))"
        using False Pb P7 Pd by (simp add: Unpack_step[OF bh] add.commute)
      also have "\<dots> = Inr ((acc OR push_bit (7 * i) (take_bit 7 x)) OR push_bit (7 * (i + 1)) x1)"
        using r3 False by blast
      also have "(acc OR push_bit (7 * i) (take_bit 7 x)) OR push_bit (7 * (i + 1)) x1
                 = acc OR push_bit (7 * i) x"
        using split7[of "7 * i" x] unfolding x1_def by (simp add: or.assoc add.commute)
      finally show ?thesis .
    qed
    show ?thesis using step r1 t1 u unfolding P_def by simp
  qed
qed


lemma Pack_Inr_bounded:
  "PackInteger_loop x i result = Inr (r, j) \<Longrightarrow> i \<le> 8 \<Longrightarrow> drop_bit (7 * (8 - i)) x = 0"
proof (induction "8 - i" arbitrary: i x result)
  case 0
  then have i: "i = 8" by simp
  show ?case
  proof (cases "x = 0")
    case True then show ?thesis by simp
  next
    case False
    then have "PackInteger_loop x i result = Inl AssertionFailed"
      using i by (subst PackInteger_loop.simps) simp
    then show ?thesis using "0.prems"(1) by simp
  qed
next
  case (Suc k)
  show ?case
  proof (cases "x = 0")
    case True then show ?thesis by simp
  next
    case False
    have i8: "i < 8" using Suc.hyps(2) by simp
    have k: "k = 8 - (i + 1)" using Suc.hyps(2) by simp
    have p1: "i + 1 \<le> 8" using i8 by simp
    have e: "7 * (8 - (i + 1)) + 7 = 7 * (8 - i)" using i8 by simp
    from Suc.prems(1) have "PackInteger_loop (drop_bit 7 x) (i + 1)
       (result OR push_bit (8 * i) (take_bit 7 x OR (if drop_bit 7 x \<noteq> 0 then 0x80 else 0))) = Inr (r, j)"
      by (simp only: Pack_step[OF False i8])
    from Suc.hyps(1)[OF k this p1] have "drop_bit (7 * (8 - (i + 1))) (drop_bit 7 x) = 0" .
    then show ?thesis using e by (simp add: drop_bit_drop_bit add.commute)
  qed
qed

lemma less_2p56: "(n::64 word) < 2 ^ 56 \<Longrightarrow> drop_bit 56 n = 0"
proof -
  assume "n < 2 ^ 56"
  then have "unat n < 2 ^ 56" by (simp add: word_less_nat_alt)
  then have "unat (drop_bit 56 n) = 0" by (simp add: drop_bit_eq_div unat_div)
  then show ?thesis by (simp add: unat_eq_0)
qed

lemma Unpack_0x80: "UnpackInteger 0x80 = Inr 0"
  unfolding UnpackInteger_def
  by (simp add: UnpackInteger_loop.simps[of "0x80"] UnpackInteger_loop.simps[of 0])

text \<open>
  Claim C4.  For every \<open>n\<close> below \<open>2^56\<close>, \<^verbatim>\<open>PackInteger\<close> returns (no assertion
  fails) and \<^verbatim>\<open>UnpackInteger\<close> maps its result back to \<open>n\<close>; and for every \<open>n\<close> other
  than zero, whatever byte count comes with it, the packed value is never \<open>0x80\<close>, the
  byte sequence reserved for the end symbol.
\<close>

theorem PackInteger_roundtrip:
  "(n < 2 ^ 56 \<longrightarrow> (\<exists>p b. PackInteger n = Inr (p, b) \<and> UnpackInteger p = Inr n)) \<and>
   (n \<noteq> 0 \<longrightarrow> (\<forall>b. PackInteger n \<noteq> Inr (0x80, b)))"
proof -
  have rt: "\<exists>p b. PackInteger n = Inr (p, b) \<and> UnpackInteger p = Inr n" if d: "drop_bit 56 n = 0"
  proof (cases "n = 0")
    case True
    show ?thesis unfolding True PackInteger_def UnpackInteger_def
      by (simp add: PackInteger_loop.simps[of 0] UnpackInteger_loop.simps[of 0])
  next
    case False
    from pack_unpack_loop[of 0 n 0] d obtain r j where
      "PackInteger_loop n 0 0 = Inr (r, j)"
      "\<forall>acc. UnpackInteger_loop (drop_bit (8 * 0) r) (7 * 0) acc = Inr (acc OR push_bit (7 * 0) n)"
      using False by auto
    then show ?thesis unfolding PackInteger_def UnpackInteger_def by simp
  qed
  have a: "n < 2 ^ 56 \<longrightarrow> (\<exists>p b. PackInteger n = Inr (p, b) \<and> UnpackInteger p = Inr n)"
    using rt less_2p56 by blast
  have b: "PackInteger n \<noteq> Inr (0x80, b)" if "n \<noteq> 0" for b
  proof
    assume h: "PackInteger n = Inr (0x80, b)"
    then have "drop_bit 56 n = 0"
      unfolding PackInteger_def using Pack_Inr_bounded[of n 0 0 "0x80" b] by simp
    from rt[OF this] h have "UnpackInteger 0x80 = Inr n" by auto
    then show False using Unpack_0x80 that by simp
  qed
  show ?thesis using a b by blast
qed


theorem PackInteger_roundtrip_witness:
  "(0x142A :: 64 word) < 2 ^ 56 \<and> (0x142A :: 64 word) \<noteq> 0 \<and>
   PackInteger 0x142A = Inr (0x28AA, 2) \<and> UnpackInteger 0x28AA = Inr 0x142A \<and>
   PackInteger 0x142A \<noteq> Inr (0x80, 2)"
proof -
  have e: "PackInteger 0x142A = Inr (0x28AA, 2)"
    by code_simp
  show ?thesis
    using PackInteger_roundtrip [of "0x142A"] e by simp
qed

subsection \<open>Reading a packed integer\<close>

declare readPackedInteger_loop.simps [simp del]

lemma bit7_ucast: "((ucast (b::byte) :: uint64) AND kEndMask \<noteq> 0) = bit b 7"
proof -
  have "(ucast b :: uint64) AND kEndMask = (if bit b 7 then 0x80 else 0)"
    unfolding kEndMask_def
    by (rule bit_eqI) (auto simp add: bit_simps bit_128)
  then show ?thesis by simp
qed

lemma readPackedInteger_loop_Cons:
  "i < 8 \<Longrightarrow> readPackedInteger_loop i p (s\<lparr>input := b # bs\<rparr>) =
     (if bit b 7 then readPackedInteger_loop (i + 1) (p OR push_bit (8 * i) (ucast b)) (s\<lparr>input := bs\<rparr>)
      else Inr (p OR push_bit (8 * i) (ucast b), s\<lparr>input := bs\<rparr>))"
  by (subst readPackedInteger_loop.simps)
     (simp add: readByte_def Let_def bit7_ucast mult.commute)

lemma readPackedInteger_loop_stops:
  "i + length pre < 8 \<Longrightarrow> \<forall>b\<in>set pre. bit b 7 \<Longrightarrow> \<not> bit t 7 \<Longrightarrow>
   readPackedInteger_loop i p (s\<lparr>input := pre @ t # rest\<rparr>) =
     Inr (p OR push_bit (8 * i) (little_endian (pre @ [t])), s\<lparr>input := rest\<rparr>)"
proof (induction pre arbitrary: i p)
  case Nil
  then show ?case by (simp add: readPackedInteger_loop_Cons)
next
  case (Cons b pre)
  have "push_bit (8 * i) (ucast b) OR push_bit (8 * (i + 1)) (little_endian (pre @ [t]))
      = push_bit (8 * i) (ucast b OR push_bit 8 (little_endian (pre @ [t])))"
    by (simp add: push_bit_or push_bit_push_bit add.commute)
  then show ?case using Cons.prems Cons.IH[of "i + 1"]
    by (simp add: readPackedInteger_loop_Cons or.assoc)
qed


text \<open>
  Claim C5, as the code has it.  When the first byte with a clear high bit is among the
  first eight bytes of the input, \<^verbatim>\<open>readPackedInteger\<close> returns, having consumed the
  bytes up to and including that byte and nothing after it; the value is the one the
  bytes read spell least significant byte first, with \<open>0x80\<close> replaced by the end symbol.
  No length is checked and no error is raised on this path.
\<close>

theorem readPackedInteger_stops_at_terminator:
  assumes "input s = pre @ t # rest"
    and "\<forall>b\<in>set pre. bit b 7"
    and "\<not> bit t 7"
    and "length pre < 8"
  shows "readPackedInteger s =
     Inr (if little_endian (pre @ [t]) = 0x80 then kEndSymbol else little_endian (pre @ [t]),
          s\<lparr>input := rest\<rparr>)"
proof -
  have s: "s = s\<lparr>input := pre @ t # rest\<rparr>"
    using assms(1) by simp
  have "readPackedInteger_loop 0 0 (s\<lparr>input := pre @ t # rest\<rparr>) =
      Inr (0 OR push_bit (8 * 0) (little_endian (pre @ [t])), s\<lparr>input := rest\<rparr>)"
    using assms(2-4) by (intro readPackedInteger_loop_stops) simp_all
  then have "readPackedInteger_loop 0 0 s = Inr (little_endian (pre @ [t]), s\<lparr>input := rest\<rparr>)"
    using s by simp
  then show ?thesis
    by (simp add: readPackedInteger_def)
qed

theorem readPackedInteger_stops_at_terminator_witness:
  "bit (0x81 :: byte) 7 \<and> \<not> bit (0x01 :: byte) 7 \<and>
   length [0x81, 0x81 :: byte] < 8 \<and>
   readPackedInteger \<lparr>bitBuffer = [], input = [0x81, 0x81, 0x01, 0x55]\<rparr> =
     Inr (0x18181, \<lparr>bitBuffer = [], input = [0x55]\<rparr>)"
  using readPackedInteger_stops_at_terminator
    [of "\<lparr>bitBuffer = [], input = [0x81, 0x81, 0x01, 0x55]\<rparr>" "[0x81, 0x81]" "0x01" "[0x55]"]
  by simp

text \<open>
  The claim as stated fails: on nine bytes with the high bit set followed by a
  terminating byte, the source reaches the shift by 64 at the ninth byte; nothing checks
  the number of bytes and no \<open>MalformedStream\<close> error exists to be raised.
\<close>

theorem readPackedInteger_no_MalformedStream:
  "readPackedInteger
     \<lparr>bitBuffer = [], input = [0x81, 0x81, 0x81, 0x81, 0x81, 0x81, 0x81, 0x81, 0x81, 0x01]\<rparr>
   = Inl UndefinedShift \<and>
   readPackedInteger
     \<lparr>bitBuffer = [], input = [0x81, 0x81, 0x81, 0x81, 0x81, 0x81, 0x81, 0x81, 0x81, 0x01]\<rparr>
   \<noteq> Inl MalformedStream"
  by code_simp

subsection \<open>The block header\<close>

declare writePackedInteger.simps [simp del]

lemma open_remainder_Nil: "open_remainder []"
  by (simp add: open_remainder_def)

lemma open_remainder_snoc:
  "open_remainder cur \<Longrightarrow> sum_list cur + x < 10000 \<Longrightarrow> open_remainder (cur @ [x])"
  by (auto simp add: open_remainder_def list_all_iff less_Suc_eq)

lemma closed_section_snoc:
  "open_remainder cur \<Longrightarrow> 10000 \<le> sum_list cur + x \<Longrightarrow> closed_section (cur @ [x])"
  by (auto simp add: open_remainder_def closed_section_def list_all_iff less_Suc_eq)

lemma deduce_sections_loop_chunks:
  "open_remainder cur \<Longrightarrow> sm = sum_list cur \<Longrightarrow>
   \<exists>chunks r. cur @ xs = concat chunks @ r \<and> list_all closed_section chunks \<and> open_remainder r \<and>
     deduce_sections_loop xs sm temp = (sum_list r, temp @ map sum_list chunks)"
proof (induction xs arbitrary: cur sm temp)
  case Nil
  then show ?case
    by (intro exI [of _ "[]"] exI [of _ cur]) simp
next
  case (Cons x xs)
  show ?case
  proof (cases "10000 \<le> sm + x")
    case True
    then have c: "closed_section (cur @ [x])"
      using Cons.prems by (simp add: closed_section_snoc)
    from Cons.IH [OF open_remainder_Nil, of 0 "temp @ [sm + x]"]
    obtain chunks r where h: "[] @ xs = concat chunks @ r" "list_all closed_section chunks"
      "open_remainder r"
      "deduce_sections_loop xs 0 (temp @ [sm + x]) = (sum_list r, (temp @ [sm + x]) @ map sum_list chunks)"
      by auto
    show ?thesis
      using True h c Cons.prems(2)
      by (intro exI [of _ "(cur @ [x]) # chunks"] exI [of _ r]) simp
  next
    case False
    then have o: "open_remainder (cur @ [x])"
      using Cons.prems by (simp add: open_remainder_snoc)
    from Cons.IH [OF o, of "sm + x" temp] Cons.prems(2)
    obtain chunks r where h: "(cur @ [x]) @ xs = concat chunks @ r" "list_all closed_section chunks"
      "open_remainder r"
      "deduce_sections_loop xs (sm + x) temp = (sum_list r, temp @ map sum_list chunks)"
      by auto
    show ?thesis
      using False h
      by (intro exI [of _ chunks] exI [of _ r]) simp
  qed
qed

lemma deduce_sections_chunks:
  "\<exists>chunks r. stats = concat chunks @ r \<and> list_all closed_section chunks \<and> open_remainder r \<and>
     deduce_sections stats = sections_of chunks r"
proof -
  from deduce_sections_loop_chunks [OF open_remainder_Nil, of 0 stats "[]"]
  obtain chunks r where h: "stats = concat chunks @ r" "list_all closed_section chunks"
      "open_remainder r"
      "deduce_sections_loop stats 0 [] = (sum_list r, map sum_list chunks)"
    by auto
  have "deduce_sections stats = sections_of chunks r"
    using h(4)
    by (simp add: deduce_sections_def sections_of_def map_butlast last_map)
  then show ?thesis using h by blast
qed

lemma sum_list_concat_sections:
  "sum_list (concat chunks) = sum_list (map sum_list chunks)" for chunks :: "uint64 list list"
  by (induction chunks) simp_all

lemma sum_list_sections_of: "sum_list (sections_of chunks r) = sum_list (concat chunks @ r)"
proof (cases chunks rule: rev_cases)
  case Nil
  then show ?thesis by (simp add: sections_of_def)
next
  case (snoc ys y)
  then show ?thesis
    by (simp add: sections_of_def sum_list_concat_sections add.assoc)
qed

lemma length_sections_of:
  "list_all closed_section chunks \<Longrightarrow> length (sections_of chunks r) \<le> length (concat chunks @ r)"
proof -
  assume a: "list_all closed_section chunks"
  then have "length chunks \<le> length (concat chunks)"
  proof (induction chunks)
    case Nil
    then show ?case by simp
  next
    case (Cons c cs)
    then have "c \<noteq> []" by (simp add: closed_section_def)
    then have "1 \<le> length c" by (cases c) simp_all
    then show ?case using Cons by simp
  qed
  moreover have "sum_list r \<noteq> 0 \<Longrightarrow> r \<noteq> []" by auto
  ultimately show ?thesis
    by (cases r) (auto simp add: sections_of_def)
qed

lemma writePackedInteger_appends:
  "\<exists>bs. writePackedInteger p out = out @ bs"
proof (induction p out rule: writePackedInteger.induct)
  case (1 packed_integer out)
  show ?case
  proof (cases "drop_bit 8 packed_integer = 0")
    case True
    then show ?thesis
      by (subst writePackedInteger.simps) (simp add: Let_def writeByte_def)
  next
    case False
    from "1.IH" [OF refl refl refl False] obtain bs where
      "writePackedInteger (drop_bit 8 packed_integer)
         (writeByte (ucast (packed_integer AND 0xFF)) out) =
       writeByte (ucast (packed_integer AND 0xFF)) out @ bs"
      by blast
    then show ?thesis using False
      by (subst writePackedInteger.simps) (simp add: Let_def writeByte_def)
  qed
qed

lemma fold_packed_prefix:
  "\<exists>tail hl'. fold (\<lambda>x (out, hl). let (p, bytes) = packInteger x
                   in (writePackedInteger p out, hl + of_int bytes)) s (out0, hl0) = (out0 @ tail, hl')"
proof (induction s arbitrary: out0 hl0)
  case Nil
  then show ?case by simp
next
  case (Cons x s)
  obtain p bytes where pb: "packInteger x = (p, bytes)" by (cases "packInteger x")
  obtain bs where w: "writePackedInteger p out0 = out0 @ bs"
    using writePackedInteger_appends by blast
  from Cons [of "out0 @ bs" "hl0 + of_int bytes"] obtain tail hl' where
    "fold (\<lambda>x (out, hl). let (p, bytes) = packInteger x
            in (writePackedInteger p out, hl + of_int bytes)) s (out0 @ bs, hl0 + of_int bytes)
       = ((out0 @ bs) @ tail, hl')"
    by blast
  then show ?case using pb w
    by (intro exI [of _ "bs @ tail"] exI [of _ hl']) simp
qed

text \<open>
  Claim C8.  Whatever \<^verbatim>\<open>packInteger\<close> is, \<^verbatim>\<open>writeBlockHeader\<close> cuts the statistics vector
  into consecutive closed sections and a remainder, each closed section ending at the
  entry where its running sum first reaches 10000; the rewritten vector holds the sums
  of the closed sections, with a nonzero remainder added to the last one (or alone when
  nothing was closed); its sum is the sum of the statistics.  The call returns exactly
  when there are at most 256 sections, otherwise \<^verbatim>\<open>assert(temp.size() <= 256)\<close> stops it,
  and a vector of at most 256 entries never has more.  On return the six placeholder
  bytes are followed by the count byte, which is 0 for 256 sections.
\<close>

theorem writeBlockHeader_sections:
  "\<exists>chunks r.
     stats = concat chunks @ r \<and> list_all closed_section chunks \<and> open_remainder r \<and>
     sum_list (sections_of chunks r) = sum_list stats \<and>
     (length stats \<le> 256 \<longrightarrow> length (sections_of chunks r) \<le> 256) \<and>
     (if length (sections_of chunks r) \<le> 256
      then \<exists>tail enc'.
             writeBlockHeader packInteger stats enc = Inr (sections_of chunks r, enc') \<and>
             m_headerPosition enc' = length (m_out enc) \<and>
             m_out enc' = m_out enc @ replicate 6 0 @
               [if length (sections_of chunks r) = 256 then 0
                else of_nat (length (sections_of chunks r))] @ tail
      else writeBlockHeader packInteger stats enc = Inl AssertionFailed)"
proof -
  from deduce_sections_chunks [of stats] obtain chunks r where
    h: "stats = concat chunks @ r" "list_all closed_section chunks" "open_remainder r"
       "deduce_sections stats = sections_of chunks r"
    by blast
  let ?secs = "sections_of chunks r"
  have len: "length stats \<le> 256 \<longrightarrow> length ?secs \<le> 256"
    using length_sections_of [OF h(2), of r] h(1) by simp
  have sm: "sum_list ?secs = sum_list stats"
    using sum_list_sections_of [of chunks r] h(1) by simp
  let ?len = "if length ?secs = 256 then 0 else (of_nat (length ?secs) :: byte)"
  let ?out2 = "m_out enc @ replicate 6 0 @ [?len]"
  have six: "fold (\<lambda>i. writeByte 0x00) [0..<6] (m_out enc) = m_out enc @ replicate 6 0"
    by (simp add: writeByte_def upt_rec numeral_eq_Suc del: upt.simps)
  from fold_packed_prefix [of packInteger ?secs ?out2 "1::uint64"]
  obtain tail and hl' :: uint64 where
    f: "fold (\<lambda>x (out, hl). let (p, bytes) = packInteger x
            in (writePackedInteger p out, hl + of_int bytes)) ?secs (?out2, 1) = (?out2 @ tail, hl')"
    by blast
  have ret: "writeBlockHeader packInteger stats enc =
     Inr (?secs, enc\<lparr>m_out := ?out2 @ tail, m_headerPosition := length (m_out enc),
                       m_compressedBlockLength := hl'\<rparr>)" if "length ?secs \<le> 256"
    unfolding writeBlockHeader_def Let_def h(4) six
    using that f by (simp add: writeByte_def)
  have stop: "writeBlockHeader packInteger stats enc = Inl AssertionFailed"
    if "\<not> length ?secs \<le> 256"
    unfolding writeBlockHeader_def Let_def h(4)
    using that by simp
  have "if length ?secs \<le> 256
      then \<exists>tail enc'.
             writeBlockHeader packInteger stats enc = Inr (?secs, enc') \<and>
             m_headerPosition enc' = length (m_out enc) \<and>
             m_out enc' = m_out enc @ replicate 6 0 @ [?len] @ tail
      else writeBlockHeader packInteger stats enc = Inl AssertionFailed"
    using ret stop by (cases "length ?secs \<le> 256") auto
  then show ?thesis using h(1-3) len sm by blast
qed

theorem writeBlockHeader_sections_witness:
  "length [6000, 5000, 3, 9999, 1, 7 :: uint64] \<le> 256 \<and>
   writeBlockHeader (\<lambda>x. case PackInteger x of Inr (p, n) \<Rightarrow> (p, int n) | Inl e \<Rightarrow> (0, 0))
       [6000, 5000, 3, 9999, 1, 7] \<lparr>m_out = [], m_headerPosition = 0, m_compressedBlockLength = 0\<rparr>
     = Inr ([11000, 10010],
            \<lparr>m_out = [0, 0, 0, 0, 0, 0, 2, 248, 85, 154, 78], m_headerPosition = 0,
               m_compressedBlockLength = 5\<rparr>) \<and>
   list_all closed_section [[6000, 5000], [3, 9999]] \<and> open_remainder [1, 7] \<and>
   sections_of [[6000, 5000], [3, 9999]] [1, 7] = [11000, 10010] \<and>
   (\<exists>chunks r. [6000, 5000, 3, 9999, 1, 7] = concat chunks @ r \<and>
      list_all closed_section chunks \<and> open_remainder r \<and>
      sum_list (sections_of chunks r) = (21010 :: uint64) \<and> length (sections_of chunks r) \<le> 256)"
proof -
  have e: "writeBlockHeader (\<lambda>x. case PackInteger x of Inr (p, n) \<Rightarrow> (p, int n) | Inl e \<Rightarrow> (0, 0))
       [6000, 5000, 3, 9999, 1, 7] \<lparr>m_out = [], m_headerPosition = 0, m_compressedBlockLength = 0\<rparr>
     = Inr ([11000, 10010],
            \<lparr>m_out = [0, 0, 0, 0, 0, 0, 2, 248, 85, 154, 78], m_headerPosition = 0,
               m_compressedBlockLength = 5\<rparr>)"
    by code_simp
  have c: "list_all closed_section [[6000, 5000], [3, 9999]]" "open_remainder [1, 7]"
    "sections_of [[6000, 5000], [3, 9999]] [1, 7] = [11000, 10010]"
    by code_simp+
  have "\<exists>chunks r. [6000, 5000, 3, 9999, 1, 7] = concat chunks @ r \<and>
      list_all closed_section chunks \<and> open_remainder r \<and>
      sum_list (sections_of chunks r) = (21010 :: uint64) \<and> length (sections_of chunks r) \<le> 256"
    using writeBlockHeader_sections [of "[6000, 5000, 3, 9999, 1, 7]"] by simp blast
  then show ?thesis using e c by simp
qed

subsection \<open>The trailer\<close>

lemma trailer_bit_shift_in:
  "trailer_bit p j (s, bitsLeft, out, bytes) =
     (if bitsLeft - 1 = 0 then (shift_in s p j, 8, writeByte (shift_in s p j) out, bytes + 1)
      else (shift_in s p j, bitsLeft - 1, out, bytes))"
  unfolding trailer_bit_def shift_in_def Let_def by (simp only: prod.case)

lemma shift_in_bit:
  shows "bit (shift_in s p j) 0 = bit p j" and "i < 7 \<Longrightarrow> bit (shift_in s p j) (Suc i) = bit s i"
proof -
  have b: "bit (shift_in s p j) n = (n < 8 \<and> ((1 \<le> n \<and> bit s (n - 1)) \<or> (n = 0 \<and> bit p j)))" for n
    unfolding shift_in_def
    apply (simp only: bit_ucast_iff bit_or_iff bit_push_bit_iff bit_and_iff bit_drop_bit_eq bit_1_iff)
    apply (auto simp add: bit_simps dest: bit_imp_le_length)
    done
  show "bit (shift_in s p j) 0 = bit p j" by (simp add: b)
  show "i < 7 \<Longrightarrow> bit (shift_in s p j) (Suc i) = bit s i" by (simp add: b)
qed

lemma length_bits_of_byte [simp]: "length (bits_of_byte b) = 8"
  by (simp add: bits_of_byte_def)

lemma length_bits_of_bytes [simp]: "length (bits_of_bytes bs) = 8 * length bs"
  by (induction bs) (simp_all add: bits_of_bytes_def)

lemma bits_of_bytes_append [simp]:
  "bits_of_bytes (xs @ ys) = bits_of_bytes xs @ bits_of_bytes ys"
  by (simp add: bits_of_bytes_def)

lemma bits_of_bytes_Nil [simp]: "bits_of_bytes [] = []"
  by (simp add: bits_of_bytes_def)

lemma bits_of_bytes_Cons [simp]: "bits_of_bytes (b # bs) = bits_of_byte b @ bits_of_bytes bs"
  by (simp add: bits_of_bytes_def)

lemma pending_bits_0 [simp]: "pending_bits s 0 = []"
  by (simp add: pending_bits_def)

lemma bits_of_byte_pending: "bits_of_byte s = pending_bits s 8"
  by (simp add: bits_of_byte_def pending_bits_def)

lemma rev_upt_Suc_shift: "rev [0..<Suc k] = map Suc (rev [0..<k]) @ [0]"
proof -
  have "[0..<Suc k] = 0 # map Suc [0..<k]"
    by (simp add: upt_conv_Cons map_Suc_upt del: upt_Suc)
  then show ?thesis by (simp add: rev_map del: upt_Suc)
qed

lemma pending_bits_shift:
  assumes "k < 8"
  shows "pending_bits (shift_in s p j) (Suc k) = pending_bits s k @ [bit p j]"
proof -
  let ?s1 = "shift_in s p j"
  have "map (bit ?s1) (map Suc (rev [0..<k])) = map (bit s) (rev [0..<k])"
    using assms by (simp add: shift_in_bit(2))
  then show ?thesis
    unfolding pending_bits_def rev_upt_Suc_shift
    by (simp add: shift_in_bit(1))
qed

lemma trailer_bit_step:
  assumes "enc_ok st"
  shows "enc_ok (trailer_bit p j st) \<and>
         enc_bits (trailer_bit p j st) = enc_bits st @ [bit p j] \<and>
         enc_count (trailer_bit p j st) = enc_count st \<and>
         (\<exists>ys. fst (snd (snd (trailer_bit p j st))) = fst (snd (snd st)) @ ys)"
proof -
  obtain s bitsLeft out bytes where st: "st = (s, bitsLeft, out, bytes)"
    by (cases st)
  have bl: "1 \<le> bitsLeft" "bitsLeft \<le> 8" using assms st by simp_all
  let ?s1 = "shift_in s p j"
  show ?thesis
  proof (cases "bitsLeft = 1")
    case True
    have "pending_bits ?s1 (Suc 7) = pending_bits s 7 @ [bit p j]"
      by (rule pending_bits_shift) simp
    then show ?thesis using True st
      by (simp add: trailer_bit_shift_in writeByte_def bits_of_byte_pending)
  next
    case False
    have k: "8 - nat (bitsLeft - 1) = Suc (8 - nat bitsLeft)" "8 - nat bitsLeft < 8"
      using bl False by simp_all
    have "pending_bits ?s1 (Suc (8 - nat bitsLeft)) = pending_bits s (8 - nat bitsLeft) @ [bit p j]"
      by (rule pending_bits_shift) (rule k(2))
    then show ?thesis using False st bl k(1)
      by (simp add: trailer_bit_shift_in)
  qed
qed

lemma trailer_bits_fold:
  "enc_ok st \<Longrightarrow>
     enc_ok (fold (trailer_bit p) js st) \<and>
     enc_bits (fold (trailer_bit p) js st) = enc_bits st @ map (bit p) js \<and>
     enc_count (fold (trailer_bit p) js st) = enc_count st \<and>
     (\<exists>ys. fst (snd (snd (fold (trailer_bit p) js st))) = fst (snd (snd st)) @ ys)"
proof (induction js arbitrary: st)
  case Nil
  then show ?case by simp
next
  case (Cons j js)
  from trailer_bit_step [OF Cons.prems, of p j] Cons.IH [of "trailer_bit p j st"]
  show ?case by auto
qed

lemma trailer_power_step:
  "enc_ok st \<Longrightarrow>
     enc_ok (trailer_power p st) \<and>
     enc_bits (trailer_power p st) = enc_bits st @ power_bits p \<and>
     enc_count (trailer_power p st) = enc_count st \<and>
     (\<exists>ys. fst (snd (snd (trailer_power p st))) = fst (snd (snd st)) @ ys)"
  unfolding trailer_power_def power_bits_def by (rule trailer_bits_fold)

lemma trailer_powers_fold:
  "enc_ok st \<Longrightarrow>
     enc_ok (fold trailer_power ps st) \<and>
     enc_bits (fold trailer_power ps st) = enc_bits st @ concat (map power_bits ps) \<and>
     enc_count (fold trailer_power ps st) = enc_count st \<and>
     (\<exists>ys. fst (snd (snd (fold trailer_power ps st))) = fst (snd (snd st)) @ ys)"
proof (induction ps arbitrary: st)
  case Nil
  then show ?case by simp
next
  case (Cons p ps)
  from trailer_power_step [OF Cons.prems, of p] Cons.IH [of "trailer_power p st"]
  show ?case by auto
qed

lemma flush_byte_bits:
  fixes s :: byte
  assumes "n \<le> 8"
  shows "bits_of_byte (ucast (push_bit n (ucast s :: uint32)) :: byte)
       = pending_bits s (8 - n) @ replicate n False"
proof (rule nth_equalityI)
  show "length (bits_of_byte (ucast (push_bit n (ucast s :: uint32)) :: byte))
      = length (pending_bits s (8 - n) @ replicate n False)"
    using assms by (simp add: pending_bits_def)
next
  fix i
  assume "i < length (bits_of_byte (ucast (push_bit n (ucast s :: uint32)) :: byte))"
  then have i: "i < 8" by simp
  have b: "bit (ucast (push_bit n (ucast s :: uint32)) :: byte) m = (m < 8 \<and> n \<le> m \<and> bit s (m - n))" for m
    by (auto simp add: bit_simps dest: bit_imp_le_length)
  show "bits_of_byte (ucast (push_bit n (ucast s :: uint32)) :: byte) ! i
      = (pending_bits s (8 - n) @ replicate n False) ! i"
  proof (cases "i < 8 - n")
    case True
    then have "7 - i - n = 8 - n - Suc i" "n \<le> 7 - i" by simp_all
    then show ?thesis using i True
      by (auto simp add: bits_of_byte_def pending_bits_def nth_append rev_nth b)
  next
    case False
    then have "\<not> n \<le> 7 - i" using i assms by simp
    then show ?thesis using i False assms
      by (simp add: bits_of_byte_def pending_bits_def nth_append rev_nth b)
  qed
qed

lemma writeTrailer_bits:
  "\<exists>body pad. writeTrailer ps out0 =
       (1 + int (length body), out0 @ ucast ((of_nat (length ps) :: uint64) - 1) # body) \<and>
     bits_of_bytes body = concat (map power_bits ps) @ replicate pad False \<and> pad < 8"
proof -
  let ?s0 = "(ucast ((of_nat (length ps) :: uint64) - 1) :: byte)"
  let ?st0 = "(?s0, 8 :: int, writeByte ?s0 out0, 1 :: int)"
  obtain s bitsLeft out bytes where f: "fold trailer_power ps ?st0 = (s, bitsLeft, out, bytes)"
    by (cases "fold trailer_power ps ?st0")
  have ok0: "enc_ok ?st0" by simp
  from trailer_powers_fold [OF ok0, of ps] f obtain ys where
    h: "1 \<le> bitsLeft" "bitsLeft \<le> 8"
       "bits_of_bytes out @ pending_bits s (8 - nat bitsLeft)
          = bits_of_bytes (out0 @ [?s0]) @ concat (map power_bits ps)"
       "bytes - int (length out) = 1 - int (length (out0 @ [?s0]))"
       "out = (out0 @ [?s0]) @ ys"
    by (auto simp add: writeByte_def pending_bits_def)
  have bits_ys: "bits_of_bytes ys @ pending_bits s (8 - nat bitsLeft) = concat (map power_bits ps)"
    using h(3) unfolding h(5) by simp
  show ?thesis
  proof (cases "bitsLeft < 8")
    case True
    let ?last = "(ucast (push_bit (nat bitsLeft) (ucast s :: uint32)) :: byte)"
    have l: "bits_of_byte ?last = pending_bits s (8 - nat bitsLeft) @ replicate (nat bitsLeft) False"
      using h(2) by (intro flush_byte_bits) simp
    have w: "writeTrailer ps out0 = (bytes + 1, out @ [?last])"
      using f True by (simp add: writeTrailer_def Let_def writeByte_def)
    show ?thesis
      using w h(4,5) bits_ys l True h(1)
      by (intro exI [of _ "ys @ [?last]"] exI [of _ "nat bitsLeft"]) simp
  next
    case False
    then have e: "bitsLeft = 8" using h(2) by simp
    have w: "writeTrailer ps out0 = (bytes, out)"
      using f False by (simp add: writeTrailer_def Let_def)
    show ?thesis
      using w h(4,5) bits_ys e
      by (intro exI [of _ ys] exI [of _ 0]) (simp add: pending_bits_def)
  qed
qed

lemma readBit_stream:
  assumes "stream_bits s = b # after" and "aligned s"
  shows "\<exists>s'. readBit s = Inr (b, s') \<and> stream_bits s' = after \<and> aligned s'"
proof (cases "bitBuffer s")
  case (Cons x xs)
  then show ?thesis using assms
    by (simp add: readBit_def stream_bits_def aligned_def)
next
  case Nil
  show ?thesis
  proof (cases "input s")
    case Nil
    then show ?thesis using assms \<open>bitBuffer s = []\<close> by (simp add: stream_bits_def)
  next
    case (Cons c cs)
    obtain y ys where y: "bits_of_byte c = y # ys"
      by (cases "bits_of_byte c") (simp_all add: bits_of_byte_def)
    then have "length ys = 7"
      using length_bits_of_byte [of c] by simp
    then show ?thesis using assms Cons Nil y
      by (simp add: readBit_def stream_bits_def aligned_def)
  qed
qed

lemma read_pos_Suc:
  "read_pos (Suc n) pos s =
     (case readBit s of Inl e \<Rightarrow> Inl e | Inr (b, s') \<Rightarrow> read_pos n (shift_bit b pos) s')"
  unfolding shift_bit_def by (simp only: read_pos.simps)

lemma read_pos_stream:
  "stream_bits s = xs @ after \<Longrightarrow> aligned s \<Longrightarrow>
   \<exists>s'. read_pos (length xs) pos s = Inr (fold shift_bit xs pos, s') \<and>
        stream_bits s' = after \<and> aligned s'"
proof (induction xs arbitrary: s pos)
  case Nil
  then show ?case by simp
next
  case (Cons x xs)
  from readBit_stream [of s x "xs @ after"] Cons.prems obtain s1 where
    r: "readBit s = Inr (x, s1)" "stream_bits s1 = xs @ after" "aligned s1"
    by auto
  from Cons.IH [OF r(2,3), of "shift_bit x pos"] r(1)
  show ?case by (simp add: read_pos_Suc del: read_pos.simps)
qed

lemma fold_shift_bit:
  "fold shift_bit (map (bit p) (rev [0..<k])) v = push_bit k v OR take_bit k p"
  for p v :: "'a::len word"
proof (induction k arbitrary: v)
  case 0
  then show ?case by simp
next
  case (Suc k)
  have "push_bit k (shift_bit (bit p k) v) OR take_bit k p = push_bit (Suc k) v OR take_bit (Suc k) p"
    unfolding shift_bit_def
    by (rule bit_eqI) (auto simp add: bit_simps less_Suc_eq simp del: push_bit_of_1)
  then show ?case using Suc [of "shift_bit (bit p k) v"] by simp
qed

lemma fold_power_bits:
  fixes p :: uint32
  assumes "p < 2 ^ 31"
  shows "fold shift_bit (power_bits p) 0 = p"
proof -
  have "take_bit 31 p = p"
    using less_mask_eq [OF assms] by (simp add: take_bit_eq_mask)
  then show ?thesis
    unfolding power_bits_def by (simp add: fold_shift_bit)
qed

lemma length_power_bits [simp]: "length (power_bits p) = 31"
  by (simp add: power_bits_def)

lemma read_LFpowers_stream:
  "stream_bits s = concat (map power_bits ps) @ after \<Longrightarrow> aligned s \<Longrightarrow>
   \<forall>p\<in>set ps. p < 2 ^ 31 \<Longrightarrow>
   \<exists>s'. read_LFpowers (length ps) s = Inr (ps, s') \<and> stream_bits s' = after \<and> aligned s'"
proof (induction ps arbitrary: s)
  case Nil
  then show ?case by simp
next
  case (Cons p ps)
  have "stream_bits s = power_bits p @ (concat (map power_bits ps) @ after)"
    using Cons.prems(1) by simp
  from read_pos_stream [OF this Cons.prems(2), of 0] obtain s1 where
    r: "read_pos 31 0 s = Inr (fold shift_bit (power_bits p) 0, s1)"
       "stream_bits s1 = concat (map power_bits ps) @ after" "aligned s1"
    by auto
  have p: "fold shift_bit (power_bits p) 0 = p"
    using Cons.prems(3) by (simp add: fold_power_bits)
  from Cons.IH [OF r(2,3)] Cons.prems(3) obtain s2 where
    "read_LFpowers (length ps) s1 = Inr (ps, s2)" "stream_bits s2 = after" "aligned s2"
    by auto
  then show ?case using r(1) p by (simp del: read_pos.simps)
qed

lemma bits_of_byte_inj: "bits_of_byte x = bits_of_byte y \<Longrightarrow> x = y"
proof (rule bit_eqI)
  fix n
  assume e: "bits_of_byte x = bits_of_byte y" and "possible_bit TYPE(byte) n"
  then have n: "n < 8" by (simp add: possible_bit_word)
  have "bits_of_byte x ! (7 - n) = bit x n" "bits_of_byte y ! (7 - n) = bit y n"
    using n by (simp_all add: bits_of_byte_def rev_nth)
  then show "bit x n = bit y n" using e by simp
qed

lemma bits_of_bytes_inj: "bits_of_bytes xs = bits_of_bytes ys \<Longrightarrow> xs = ys"
proof (induction xs arbitrary: ys)
  case Nil
  then have "length (bits_of_bytes ys) = 0" by simp
  then show ?case by simp
next
  case (Cons x xs)
  from arg_cong [OF Cons.prems, of length]
  have "8 * length ys = 8 * length (x # xs)" by simp
  then obtain y ys' where ys: "ys = y # ys'"
    by (cases ys) simp_all
  from Cons.prems have "bits_of_byte x = bits_of_byte y \<and> bits_of_bytes xs = bits_of_bytes ys'"
    unfolding ys by simp
  then show ?case using Cons.IH [of ys'] ys bits_of_byte_inj by auto
qed

lemma flush_after_padding:
  assumes "stream_bits s = replicate pad False @ bits_of_bytes rest"
    and "pad < 8" and "aligned s"
  shows "flushBuffer s = \<lparr>bitBuffer = [], input = rest\<rparr>"
proof -
  have "length (bitBuffer s) + 8 * length (input s) = pad + 8 * length rest"
    using arg_cong [OF assms(1), of length] by (simp add: stream_bits_def)
  then have l: "length (bitBuffer s) = pad"
    using assms(2,3) unfolding aligned_def by presburger
  then have "bits_of_bytes (input s) = bits_of_bytes rest"
    using assms(1) by (simp add: stream_bits_def)
  then have "input s = rest" by (rule bits_of_bytes_inj)
  then show ?thesis by (simp add: flushBuffer_def)
qed

lemma count_byte:
  assumes "1 \<le> n" "n \<le> 256"
  shows "unat ((ucast (ucast ((of_nat n :: uint64) - 1) :: byte) :: uint32) + 1) = n"
proof -
  let ?w = "(of_nat n :: uint64) - 1"
  have a: "?w = of_nat (n - 1)"
    using assms by (simp add: of_nat_diff)
  have "unat (of_nat (n - 1) :: uint64) = n - 1"
    using assms by (simp only: unat_of_nat) simp
  then have b: "unat ?w = n - 1"
    by (simp only: a)
  have "unat (ucast ?w :: byte) = take_bit 8 (unat ?w)"
    using unsigned_ucast_eq [of ?w, where 'c = 8 and 'a = nat] by simp
  then have c: "unat (ucast ?w :: byte) = n - 1"
    using assms by (simp only: b take_bit_eq_mod) simp
  have "unat (ucast (ucast ?w :: byte) :: uint32) = take_bit 32 (unat (ucast ?w :: byte))"
    using unsigned_ucast_eq [of "ucast ?w :: byte", where 'c = 32 and 'a = nat] by simp
  then have d: "unat (ucast (ucast ?w :: byte) :: uint32) = n - 1"
    using assms by (simp only: c take_bit_eq_mod) simp
  have "unat ((ucast (ucast ?w :: byte) :: uint32) + 1) = (unat (ucast (ucast ?w :: byte) :: uint32) + unat (1 :: uint32)) mod 2 ^ 32"
    by (simp only: unat_word_ariths) simp
  then show ?thesis
    using assms by (simp only: d) simp
qed

text \<open>
  Claim C9.  For a nonempty list of at most 256 LF powers below \<open>2^31\<close>, \<^verbatim>\<open>writeTrailer\<close>
  appends to the output, returns the number of bytes it appended, and the trailer
  reading of \<^verbatim>\<open>decodeBlock\<close>, started at the first trailer byte with whatever follows
  the trailer behind it, gives back the same list and stops exactly at the end of the
  trailer.
\<close>

theorem writeTrailer_readTrailer:
  assumes "LFpowers \<noteq> []" and "length LFpowers \<le> 256" and "\<forall>p\<in>set LFpowers. p < 2 ^ 31"
  shows "\<exists>bytes out. writeTrailer LFpowers out0 = (bytes, out) \<and>
           take (length out0) out = out0 \<and>
           bytes = int (length out) - int (length out0) \<and>
           readTrailer \<lparr>bitBuffer = [], input = drop (length out0) out @ rest\<rparr>
             = Inr (LFpowers, \<lparr>bitBuffer = [], input = rest\<rparr>)"
proof -
  let ?s0 = "(ucast ((of_nat (length LFpowers) :: uint64) - 1) :: byte)"
  from writeTrailer_bits [of LFpowers out0] obtain body pad where
    w: "writeTrailer LFpowers out0 = (1 + int (length body), out0 @ ?s0 # body)"
    and b: "bits_of_bytes body = concat (map power_bits LFpowers) @ replicate pad False"
    and pad: "pad < 8"
    by blast
  let ?s1 = "\<lparr>bitBuffer = [], input = body @ rest\<rparr>"
  have rb: "readByte \<lparr>bitBuffer = [], input = (?s0 # body) @ rest\<rparr> = Inr (?s0, ?s1)"
    by (simp add: readByte_def)
  have n: "unat ((ucast ?s0 :: uint32) + 1) = length LFpowers"
    using assms(1,2) by (intro count_byte) (simp_all add: Suc_le_eq)
  have sb: "stream_bits ?s1 = concat (map power_bits LFpowers) @ (replicate pad False @ bits_of_bytes rest)"
    using b by (simp add: stream_bits_def)
  have al: "aligned ?s1" by (simp add: aligned_def)
  from read_LFpowers_stream [OF sb al assms(3)] obtain s2 where
    r: "read_LFpowers (length LFpowers) ?s1 = Inr (LFpowers, s2)"
       "stream_bits s2 = replicate pad False @ bits_of_bytes rest" "aligned s2"
    by blast
  have fl: "flushBuffer s2 = \<lparr>bitBuffer = [], input = rest\<rparr>"
    using r(2) pad r(3) by (rule flush_after_padding)
  have "readTrailer \<lparr>bitBuffer = [], input = (?s0 # body) @ rest\<rparr>
      = Inr (LFpowers, \<lparr>bitBuffer = [], input = rest\<rparr>)"
    unfolding readTrailer_def rb using n r(1) fl by (simp add: Let_def)
  then show ?thesis using w by simp
qed

theorem writeTrailer_readTrailer_witness:
  "[5, 0x7FFFFFFF, 3 :: uint32] \<noteq> [] \<and> length [5, 0x7FFFFFFF, 3 :: uint32] \<le> 256 \<and>
   (5 :: uint32) < 2 ^ 31 \<and> (0x7FFFFFFF :: uint32) < 2 ^ 31 \<and> (3 :: uint32) < 2 ^ 31 \<and>
   writeTrailer [5, 0x7FFFFFFF, 3] [9] = (13, [9, 2, 0, 0, 0, 11, 255, 255, 255, 252, 0, 0, 0, 24]) \<and>
   readTrailer \<lparr>bitBuffer = [], input = [2, 0, 0, 0, 11, 255, 255, 255, 252, 0, 0, 0, 24, 7, 7]\<rparr>
     = Inr ([5, 0x7FFFFFFF, 3], \<lparr>bitBuffer = [], input = [7, 7]\<rparr>)"
proof -
  have e: "writeTrailer [5, 0x7FFFFFFF, 3] [9] = (13, [9, 2, 0, 0, 0, 11, 255, 255, 255, 252, 0, 0, 0, 24])"
    by code_simp
  show ?thesis
    using writeTrailer_readTrailer [of "[5, 0x7FFFFFFF, 3]" "[9]" "[7, 7]"] e by simp
qed

subsection \<open>Run lengths as gamma codes\<close>

declare logFloor.simps [simp del] binary.simps [simp del]

lemma logFloor_bounds:
  "1 \<le> n \<Longrightarrow> 2 ^ logFloor n \<le> n \<and> n < 2 ^ Suc (logFloor n)"
proof (induction n rule: logFloor.induct)
  case (1 n)
  show ?case
  proof (cases "n < 2")
    case True
    then have "n = 1" using "1.prems" by simp
    then show ?thesis by (simp add: logFloor.simps [of "Suc 0"])
  next
    case False
    then have "1 \<le> n div 2" by simp
    from "1.IH" [OF False this]
    have "2 ^ logFloor (n div 2) \<le> n div 2" "n div 2 < 2 ^ Suc (logFloor (n div 2))"
      by simp_all
    then have "2 * 2 ^ logFloor (n div 2) \<le> n" "n < 2 * 2 ^ Suc (logFloor (n div 2))"
      by simp_all
    then show ?thesis using False by (simp add: logFloor.simps [of n])
  qed
qed

lemma length_binary: "length (binary n) = Suc (logFloor n)"
proof (induction n rule: logFloor.induct)
  case (1 n)
  then show ?case
    by (cases "n < 2") (simp_all add: logFloor.simps [of n] binary.simps [of n])
qed

lemma length_gamma_code: "length (gamma_code n) = 2 * logFloor n + 1"
  by (simp add: gamma_code_def length_binary)

lemma binary_bits:
  "1 \<le> n \<Longrightarrow> binary n = map (bit n) (rev [0..<Suc (logFloor n)])"
proof (induction n rule: logFloor.induct)
  case (1 n)
  show ?case
  proof (cases "n < 2")
    case True
    then have "n = 1" using "1.prems" by simp
    then show ?thesis by (simp add: logFloor.simps [of "Suc 0"] binary.simps [of "Suc 0"] bit_0)
  next
    case False
    then have "1 \<le> n div 2" by simp
    from "1.IH" [OF False this]
    have ih: "binary (n div 2) = map (bit (n div 2)) (rev [0..<Suc (logFloor (n div 2))])" .
    have "map (bit n) (map Suc (rev [0..<Suc (logFloor (n div 2))]))
        = map (bit (n div 2)) (rev [0..<Suc (logFloor (n div 2))])"
      by (simp add: bit_Suc del: upt_Suc)
    then have "map (bit n) (rev [0..<Suc (Suc (logFloor (n div 2)))])
        = map (bit (n div 2)) (rev [0..<Suc (logFloor (n div 2))]) @ [odd n]"
      unfolding rev_upt_Suc_shift [of "Suc (logFloor (n div 2))"]
      by (simp add: bit_0 del: upt_Suc)
    then show ?thesis using False ih
      by (simp add: logFloor.simps [of n] binary.simps [of n] del: upt_Suc)
  qed
qed

lemma nat_bit_above: "n < 2 ^ i \<Longrightarrow> \<not> bit (n::nat) i"
  by (simp add: bit_iff_odd)

lemma nat_bit_top: "2 ^ i \<le> n \<Longrightarrow> n < 2 ^ Suc i \<Longrightarrow> bit (n::nat) i"
proof -
  assume a: "2 ^ i \<le> n" "n < 2 ^ Suc i"
  then have "n div 2 ^ i = 1"
    by (intro div_nat_eqI) simp_all
  then show ?thesis by (simp add: bit_iff_odd)
qed

lemma gamma_code_bits:
  assumes "1 \<le> n"
  shows "gamma_code n = map (bit n) (rev [0..<2 * logFloor n + 1])"
proof -
  let ?L = "logFloor n"
  have "[0..<Suc ?L + ?L] = [0..<Suc ?L] @ [Suc ?L..<Suc ?L + ?L]"
    by (rule upt_add_eq_append) simp
  moreover have "2 * ?L + 1 = Suc ?L + ?L" by simp
  ultimately have up: "[0..<2 * ?L + 1] = [0..<Suc ?L] @ [Suc ?L..<Suc ?L + ?L]"
    by (simp only:)
  have "\<forall>i\<in>set [Suc ?L..<Suc ?L + ?L]. \<not> bit n i"
  proof
    fix i assume "i \<in> set [Suc ?L..<Suc ?L + ?L]"
    then have "Suc ?L \<le> i" by (simp del: upt_Suc)
    then have "(2::nat) ^ Suc ?L \<le> 2 ^ i" by (intro power_increasing) simp_all
    then have "n < 2 ^ i" using logFloor_bounds [OF assms] by simp
    then show "\<not> bit n i" by (rule nat_bit_above)
  qed
  then have "map (bit n) (rev [Suc ?L..<Suc ?L + ?L]) = replicate ?L False"
    by (intro replicate_eqI) (auto simp del: upt_Suc)
  then show ?thesis
    unfolding gamma_code_def up binary_bits [OF assms]
    by (simp del: upt_Suc)
qed

declare write_bytes_while.simps [simp del] count_zeros.simps [simp del]

lemma and_ff: "(x::uint64) AND 0xff = take_bit 8 x"
  by (simp add: take_bit_eq_mask mask_eq_exp_minus_1)

lemma window_append: "lo \<le> mid \<Longrightarrow> mid \<le> hi \<Longrightarrow>
  window buffer mid hi @ window buffer lo mid = window buffer lo hi"
proof -
  assume "lo \<le> mid" "mid \<le> hi"
  then have "[lo..<hi] = [lo..<mid] @ [mid..<hi]"
    using upt_add_eq_append [of lo mid "hi - mid"] by simp
  then show ?thesis by (simp add: window_def)
qed

lemma bits_of_top_byte:
  "bits_of_byte (ucast (drop_bit k buffer AND 0xff) :: byte) = window buffer k (k + 8)"
  for buffer :: uint64
proof -
  have b: "bit (ucast (drop_bit k buffer AND 0xff) :: byte) i = bit buffer (k + i)" if "i < 8" for i
    using that unfolding and_ff by (auto simp add: bit_simps dest: bit_imp_le_length)
  have "[k..<k + 8] = map (\<lambda>i. i + k) [0..<8]"
    by (simp only: map_add_upt) (simp add: add.commute)
  then have "rev [k..<k + 8] = map (\<lambda>i. i + k) (rev [0..<8])"
    by (simp only: rev_map)
  then show ?thesis
    unfolding bits_of_byte_def window_def
    by (simp only: map_map) (simp add: b add.commute del: upt_Suc)
qed

lemma bits_of_last_byte:
  fixes buffer :: uint64
  assumes "0 < r" "r < 8"
  shows "bits_of_byte (ucast (push_bit (8 - r) buffer AND 0xff) :: byte)
       = window buffer 0 r @ replicate (8 - r) False"
proof (rule nth_equalityI)
  show "length (bits_of_byte (ucast (push_bit (8 - r) buffer AND 0xff) :: byte))
      = length (window buffer 0 r @ replicate (8 - r) False)"
    using assms by (simp add: window_def)
next
  fix i
  assume "i < length (bits_of_byte (ucast (push_bit (8 - r) buffer AND 0xff) :: byte))"
  then have i: "i < 8" by simp
  have b: "bit (ucast (push_bit (8 - r) buffer AND 0xff) :: byte) m
         = (m < 8 \<and> 8 - r \<le> m \<and> bit buffer (m - (8 - r)))" for m
    unfolding and_ff by (auto simp add: bit_simps dest: bit_imp_le_length)
  show "bits_of_byte (ucast (push_bit (8 - r) buffer AND 0xff) :: byte) ! i
      = (window buffer 0 r @ replicate (8 - r) False) ! i"
  proof (cases "i < r")
    case True
    then have "7 - i - (8 - r) = r - Suc i" "8 - r \<le> 7 - i" using assms by simp_all
    then show ?thesis using i True
      by (auto simp add: bits_of_byte_def window_def nth_append rev_nth b)
  next
    case False
    then have "\<not> 8 - r \<le> 7 - i" using i assms by simp
    then show ?thesis using i False assms
      by (simp add: bits_of_byte_def window_def nth_append rev_nth b)
  qed
qed

lemma write_bytes_while_7:
  "0 \<le> bitsInBuffer \<Longrightarrow>
   \<exists>bytes enc'. write_bytes_while 7 (buffer, bitsInBuffer, enc) = Inr (buffer, bitsInBuffer mod 8, enc') \<and>
      m_out enc' = m_out enc @ bytes \<and>
      bits_of_bytes bytes = window buffer (nat (bitsInBuffer mod 8)) (nat bitsInBuffer)"
proof (induction "nat bitsInBuffer div 8" arbitrary: bitsInBuffer enc)
  case 0
  then have "bitsInBuffer < 8" by simp
  then have "write_bytes_while 7 (buffer, bitsInBuffer, enc) = Inr (buffer, bitsInBuffer, enc)"
    "bitsInBuffer mod 8 = bitsInBuffer"
    using "0.prems" by (simp_all add: write_bytes_while.simps)
  then show ?case by (simp add: window_def)
next
  case (Suc k)
  then have ge: "8 \<le> bitsInBuffer" by simp
  let ?b1 = "bitsInBuffer - 8"
  let ?byte = "(ucast (drop_bit (nat ?b1) buffer AND 0xff) :: byte)"
  have k: "k = nat ?b1 div 8" using Suc.hyps(2) ge by simp
  have nn: "0 \<le> ?b1" using ge by simp
  from Suc.hyps(1) [OF k nn, of "write_counted ?byte enc"] obtain bytes enc' where
    h: "write_bytes_while 7 (buffer, ?b1, write_counted ?byte enc) = Inr (buffer, ?b1 mod 8, enc')"
       "m_out enc' = m_out (write_counted ?byte enc) @ bytes"
       "bits_of_bytes bytes = window buffer (nat (?b1 mod 8)) (nat ?b1)"
    by blast
  have m: "?b1 mod 8 = bitsInBuffer mod 8" by (simp add: mod_diff_right_eq [symmetric])
  have step: "write_bytes_while 7 (buffer, bitsInBuffer, enc)
            = write_bytes_while 7 (buffer, ?b1, write_counted ?byte enc)"
    using ge by (subst write_bytes_while.simps) (simp add: Let_def)
  have n8: "nat ?b1 + 8 = nat bitsInBuffer" using ge by simp
  have le: "nat (bitsInBuffer mod 8) \<le> nat ?b1"
    using ge m nn by (metis nat_mono zmod_le_nonneg_dividend)
  have "bits_of_bytes (?byte # bytes) = window buffer (nat ?b1) (nat bitsInBuffer)
          @ window buffer (nat (bitsInBuffer mod 8)) (nat ?b1)"
    using h(3) m n8 by (simp add: bits_of_top_byte)
  also have "\<dots> = window buffer (nat (bitsInBuffer mod 8)) (nat bitsInBuffer)"
    using le n8 by (intro window_append) simp_all
  finally show ?case
    using step h(1,2) m
    by (intro exI [of _ "?byte # bytes"] exI [of _ enc']) (simp add: write_counted_def writeByte_def)
qed

lemma logFloor_uint32:
  fixes n :: uint32
  assumes "1 \<le> n" "n < 2 ^ 31"
  shows "1 \<le> unat n" "unat n < 2 ^ 31" "logFloor (unat n) \<le> 30"
proof -
  show a: "1 \<le> unat n" using assms(1) by (simp add: word_le_nat_alt)
  show b: "unat n < 2 ^ 31" using assms(2) by (simp add: word_less_nat_alt)
  have "(2::nat) ^ logFloor (unat n) < 2 ^ 31"
    using logFloor_bounds [OF a] b by simp
  then have "logFloor (unat n) < 31" by (simp only: power_strict_increasing_iff)
  then show "logFloor (unat n) \<le> 30" by simp
qed

lemma bit_ucast_unat:
  fixes n :: uint32
  shows "bit (ucast n :: uint64) i = bit (unat n) i"
  by (auto simp add: bit_simps bit_unsigned_iff dest: bit_imp_le_length)

lemma window_gamma_code:
  fixes n :: uint32
  assumes "1 \<le> n"
  shows "window (ucast n) 0 (2 * logFloor (unat n) + 1) = gamma_code (unat n)"
proof -
  have "1 \<le> unat n" using assms by (simp add: word_le_nat_alt)
  then show ?thesis
    unfolding window_def by (simp add: gamma_code_bits bit_ucast_unat del: upt_Suc)
qed

lemma writeRunLengths_single:
  fixes n :: uint32
  assumes "1 \<le> n" "n < 2 ^ 31"
  shows "\<exists>bytes pad enc'. writeRunLengths [n] enc = Inr enc' \<and> m_out enc' = m_out enc @ bytes \<and>
           bits_of_bytes bytes = gamma_code (unat n) @ replicate pad False"
proof -
  let ?L = "logFloor (unat n)"
  let ?len = "int ?L * 2 + 1"
  let ?buf = "(ucast n :: uint64)"
  have L: "?L \<le> 30" using assms by (rule logFloor_uint32)
  have w0: "write_bytes_while (64 - ?len) (0, 0, enc) = Inr (0, 0, enc)"
    using L by (simp add: write_bytes_while.simps)
  have "encode_gamma n (0, 0, enc) = Inr (?buf, ?len, enc)"
    unfolding encode_gamma_def Let_def w0 by simp
  then have g: "encode_gammas [n] (0, 0, enc) = Inr (?buf, ?len, enc)"
    by simp
  have nn: "0 \<le> ?len" by simp
  from write_bytes_while_7 [OF nn, of ?buf enc] obtain bytes enc1 where
    h: "write_bytes_while 7 (?buf, ?len, enc) = Inr (?buf, ?len mod 8, enc1)"
       "m_out enc1 = m_out enc @ bytes"
       "bits_of_bytes bytes = window ?buf (nat (?len mod 8)) (nat ?len)"
    by blast
  have nl: "nat ?len = 2 * ?L + 1" by simp
  let ?r = "nat (?len mod 8)"
  have r8: "?r < 8" by simp
  have rl: "?r \<le> nat ?len"
    by (metis nat_mono nn zmod_le_nonneg_dividend)
  show ?thesis
  proof (cases "0 < ?len mod 8")
    case True
    let ?last = "(ucast (push_bit (nat (8 - ?len mod 8)) ?buf AND 0xff) :: byte)"
    have e: "nat (8 - ?len mod 8) = 8 - ?r" using True by simp
    have r0: "0 < ?r" using True by simp
    have lb: "bits_of_byte ?last = window ?buf 0 ?r @ replicate (8 - ?r) False"
      unfolding e using r0 r8 by (rule bits_of_last_byte)
    have w: "writeRunLengths [n] enc = Inr (write_counted ?last enc1)"
      using True by (simp add: writeRunLengths_def g h(1) del: encode_gammas.simps)
    have "bits_of_bytes (bytes @ [?last])
        = (window ?buf ?r (nat ?len) @ window ?buf 0 ?r) @ replicate (8 - ?r) False"
      using h(3) lb by simp
    also have "window ?buf ?r (nat ?len) @ window ?buf 0 ?r = window ?buf 0 (nat ?len)"
      using rl by (intro window_append) simp_all
    finally have "bits_of_bytes (bytes @ [?last]) = gamma_code (unat n) @ replicate (8 - ?r) False"
      unfolding nl using window_gamma_code [OF assms(1)] by simp
    then show ?thesis using w h(2)
      by (intro exI [of _ "bytes @ [?last]"] exI [of _ "8 - ?r"] exI [of _ "write_counted ?last enc1"])
         (simp add: write_counted_def writeByte_def)
  next
    case False
    then have z: "?len mod 8 = 0" by (smt (verit) pos_mod_sign)
    have w: "writeRunLengths [n] enc = Inr enc1"
      using False by (simp add: writeRunLengths_def g h(1) del: encode_gammas.simps)
    have "bits_of_bytes bytes = gamma_code (unat n)"
      using h(3) z window_gamma_code [OF assms(1)] unfolding nl by simp
    then show ?thesis using w h(2)
      by (intro exI [of _ bytes] exI [of _ 0] exI [of _ enc1]) simp
  qed
qed

lemma count_zeros_stream:
  "stream_bits s = replicate k False @ True # after \<Longrightarrow> aligned s \<Longrightarrow>
   \<exists>s'. count_zeros z s = Inr (z + k, s') \<and> stream_bits s' = after \<and> aligned s'"
proof (induction k arbitrary: s z)
  case 0
  from readBit_stream [of s True after] "0.prems" obtain s1 where
    "readBit s = Inr (True, s1)" "stream_bits s1 = after" "aligned s1"
    by auto
  then show ?case by (subst count_zeros.simps) simp
next
  case (Suc k)
  from readBit_stream [of s False "replicate k False @ True # after"] Suc.prems obtain s1 where
    r: "readBit s = Inr (False, s1)" "stream_bits s1 = replicate k False @ True # after" "aligned s1"
    by auto
  from Suc.IH [OF r(2,3), of "z + 1"] r(1)
  show ?case by (subst count_zeros.simps) simp
qed

lemma read_value_Suc:
  "read_value (Suc n) v s =
     (case readBit s of Inl e \<Rightarrow> Inl e | Inr (b, s') \<Rightarrow> read_value n (shift_bit b v) s')"
  unfolding shift_bit_def by (simp only: read_value.simps)

lemma read_value_stream:
  "stream_bits s = xs @ after \<Longrightarrow> aligned s \<Longrightarrow>
   \<exists>s'. read_value (length xs) v s = Inr (fold shift_bit xs v, s') \<and>
        stream_bits s' = after \<and> aligned s'"
proof (induction xs arbitrary: s v)
  case Nil
  then show ?case by simp
next
  case (Cons x xs)
  from readBit_stream [of s x "xs @ after"] Cons.prems obtain s1 where
    r: "readBit s = Inr (x, s1)" "stream_bits s1 = xs @ after" "aligned s1"
    by auto
  from Cons.IH [OF r(2,3), of "shift_bit x v"] r(1)
  show ?case by (simp add: read_value_Suc del: read_value.simps)
qed

lemma restore_top_bit:
  fixes n :: uint32
  assumes "2 ^ L \<le> unat n" "unat n < 2 ^ Suc L"
  shows "(ucast (take_bit L (ucast n :: uint64) OR push_bit L 1) :: uint32) = n"
proof (rule bit_eqI)
  fix i
  assume "possible_bit TYPE(uint32) i"
  have top: "bit n L"
    using nat_bit_top [OF assms] by (simp add: bit_unsigned_iff)
  have above: "\<not> bit n j" if "L < j" for j
  proof -
    have "(2::nat) ^ Suc L \<le> 2 ^ j" using that by (intro power_increasing) simp_all
    then have "unat n < 2 ^ j" using assms(2) by simp
    then show ?thesis using nat_bit_above [of "unat n" j] by (simp add: bit_unsigned_iff)
  qed
  show "bit (ucast (take_bit L (ucast n :: uint64) OR push_bit L 1) :: uint32) i = bit n i"
    using top above [of i]
    by (cases "i < L"; cases "i = L") (auto simp add: bit_simps dest: bit_imp_le_length)
qed

lemma read_gamma_stream:
  fixes n :: uint32
  assumes "1 \<le> n" "n < 2 ^ 31"
    and "stream_bits s = gamma_code (unat n) @ after" and "aligned s"
  shows "\<exists>s'. read_gamma s = Inr (n, s') \<and> stream_bits s' = after \<and> aligned s'"
proof -
  let ?N = "unat n"
  let ?L = "logFloor ?N"
  have N: "1 \<le> ?N" and L: "?L \<le> 30"
    using assms(1,2) by (rule logFloor_uint32)+
  have b: "2 ^ ?L \<le> ?N" "?N < 2 ^ Suc ?L"
    using logFloor_bounds [OF N] by simp_all
  let ?low = "map (bit (ucast n :: uint64)) (rev [0..<?L])"
  have "binary ?N = bit ?N ?L # map (bit ?N) (rev [0..<?L])"
    unfolding binary_bits [OF N] by simp
  then have g: "gamma_code ?N = replicate ?L False @ True # ?low"
    using nat_bit_top [OF b] by (simp add: gamma_code_def bit_ucast_unat)
  have "stream_bits s = replicate ?L False @ True # (?low @ after)"
    using assms(3) g by simp
  from count_zeros_stream [OF this assms(4), of 0] obtain s1 where
    c: "count_zeros 0 s = Inr (?L, s1)" "stream_bits s1 = ?low @ after" "aligned s1"
    by auto
  from read_value_stream [OF c(2,3), of 0] obtain s2 where
    v: "read_value ?L 0 s1 = Inr (fold shift_bit ?low 0, s2)" "stream_bits s2 = after" "aligned s2"
    by auto
  have "fold shift_bit ?low 0 = take_bit ?L (ucast n :: uint64)"
    by (simp add: fold_shift_bit)
  then have "read_gamma s = Inr (ucast (take_bit ?L (ucast n :: uint64) OR push_bit ?L 1), s2)"
    using c(1) v(1) L by (simp add: read_gamma_def)
  then show ?thesis using restore_top_bit [OF b] v(2,3) by auto
qed



text \<open>
  A single run length written from an empty buffer.  For a run length \<open>n\<close> from 1 to below
  \<open>2^31\<close>: the gamma code of \<open>n\<close>, that is \<open>\<lfloor>log2 n\<rfloor>\<close> zeros and then the binary
  representation of \<open>n\<close>, has \<open>2\<lfloor>log2 n\<rfloor> + 1\<close> bits; the encoder run on the single run
  length \<open>n\<close> returns and appends bytes whose bits are this code, padded to the byte
  boundary; the decoder's gamma reader started on these bytes, whatever follows them,
  returns \<open>n\<close> and has then consumed exactly the bits of the code; and the same holds for
  the reader on any stream that starts with the code, at any bit position.  With a single
  run length the loop that makes room in the buffer before a code never runs.
\<close>

theorem gamma_single_roundtrip:
  fixes n :: uint32
  assumes "1 \<le> n" and "n < 2 ^ 31"
  shows "length (gamma_code (unat n)) = 2 * logFloor (unat n) + 1 \<and>
    (\<exists>bytes pad enc'.
        writeRunLengths [n] enc = Inr enc' \<and> m_out enc' = m_out enc @ bytes \<and>
        bits_of_bytes bytes = gamma_code (unat n) @ replicate pad False \<and>
        (\<exists>s'. read_gamma \<lparr>bitBuffer = [], input = bytes @ rest\<rparr> = Inr (n, s') \<and>
              stream_bits s' = drop (2 * logFloor (unat n) + 1) (bits_of_bytes (bytes @ rest)))) \<and>
    (\<forall>s after. aligned s \<and> stream_bits s = gamma_code (unat n) @ after \<longrightarrow>
        (\<exists>s'. read_gamma s = Inr (n, s') \<and> stream_bits s' = after \<and> aligned s'))"
proof -
  have len: "length (gamma_code (unat n)) = 2 * logFloor (unat n) + 1"
    by (rule length_gamma_code)
  from writeRunLengths_single [OF assms, of enc] obtain bytes pad enc' where
    w: "writeRunLengths [n] enc = Inr enc'" "m_out enc' = m_out enc @ bytes"
       "bits_of_bytes bytes = gamma_code (unat n) @ replicate pad False"
    by blast
  let ?s = "\<lparr>bitBuffer = [], input = bytes @ rest\<rparr>"
  have sb: "stream_bits ?s = gamma_code (unat n) @ (replicate pad False @ bits_of_bytes rest)"
    using w(3) by (simp add: stream_bits_def)
  have al: "aligned ?s" by (simp add: aligned_def)
  from read_gamma_stream [OF assms sb al] obtain s' where
    r: "read_gamma ?s = Inr (n, s')" "stream_bits s' = replicate pad False @ bits_of_bytes rest"
    by blast
  have "drop (2 * logFloor (unat n) + 1) (bits_of_bytes (bytes @ rest))
      = replicate pad False @ bits_of_bytes rest"
    using w(3) len by simp
  then have enc_dec: "\<exists>bytes pad enc'.
        writeRunLengths [n] enc = Inr enc' \<and> m_out enc' = m_out enc @ bytes \<and>
        bits_of_bytes bytes = gamma_code (unat n) @ replicate pad False \<and>
        (\<exists>s'. read_gamma \<lparr>bitBuffer = [], input = bytes @ rest\<rparr> = Inr (n, s') \<and>
              stream_bits s' = drop (2 * logFloor (unat n) + 1) (bits_of_bytes (bytes @ rest)))"
    using w r by (intro exI [of _ bytes] exI [of _ pad] exI [of _ enc']) simp
  have any: "\<forall>s after. aligned s \<and> stream_bits s = gamma_code (unat n) @ after \<longrightarrow>
        (\<exists>s'. read_gamma s = Inr (n, s') \<and> stream_bits s' = after \<and> aligned s')"
    using read_gamma_stream [OF assms] by blast
  show ?thesis using len enc_dec any by blast
qed

theorem gamma_single_roundtrip_example:
  "(1 :: uint32) \<le> 1000 \<and> (1000 :: uint32) < 2 ^ 31 \<and>
   logFloor (unat (1000 :: uint32)) = 9 \<and> length (gamma_code (unat (1000 :: uint32))) = 19 \<and>
   writeRunLengths [1000] \<lparr>m_out = [], m_headerPosition = 0, m_compressedBlockLength = 0\<rparr>
     = Inr \<lparr>m_out = [0, 125, 0], m_headerPosition = 0, m_compressedBlockLength = 3\<rparr> \<and>
   read_gamma \<lparr>bitBuffer = [], input = [0, 125, 0, 1, 2]\<rparr>
     = Inr (1000, \<lparr>bitBuffer = [False, False, False, False, False], input = [1, 2]\<rparr>)"
proof -
  have e: "logFloor (unat (1000 :: uint32)) = 9"
    "writeRunLengths [1000] \<lparr>m_out = [], m_headerPosition = 0, m_compressedBlockLength = 0\<rparr>
       = Inr \<lparr>m_out = [0, 125, 0], m_headerPosition = 0, m_compressedBlockLength = 3\<rparr>"
    "read_gamma \<lparr>bitBuffer = [], input = [0, 125, 0, 1, 2]\<rparr>
       = Inr (1000, \<lparr>bitBuffer = [False, False, False, False, False], input = [1, 2]\<rparr>)"
    by code_simp+
  show ?thesis
    using gamma_single_roundtrip [of 1000 "\<lparr>m_out = [], m_headerPosition = 0, m_compressedBlockLength = 0\<rparr>" "[1, 2]"] e
    by simp
qed

lemma logFloor_8: "logFloor 8 = 3"
  by (simp add: logFloor.simps)

lemma logFloor_2p29: "logFloor 536870912 = 29"
  by (simp add: logFloor.simps)

text \<open>
  C7: the round trip of a gamma code through the encoder and the decoder, for every run
  length from 1 to below \<open>2^31\<close>.  It fails in the encoder when bits of earlier codes are
  pending.  For the run lengths 8 and \<open>2^29\<close> of one context block: the code of 8 leaves 7
  bits in the buffer; the code of \<open>2^29\<close> has 59 bits, \<open>7 + 59\<close> exceeds 64, and the loop that makes
  room takes \<^verbatim>\<open>bitsInBuffer\<close> from 7 to \<open>-1\<close> and shifts the buffer by it.  The encoder does not
  write the two codes, whatever it has written before.
\<close>

theorem writeRunLengths_pending_bits:
  "writeRunLengths [8, 0x20000000] enc = Inl UndefinedShift"
proof -
  have a: "encode_gamma 8 (0, 0, enc) = Inr (8, 7, enc)"
    unfolding encode_gamma_def Let_def
    by (simp add: logFloor_8 write_bytes_while.simps)
  have b: "encode_gamma 0x20000000 (8, 7, enc) = Inl UndefinedShift"
    unfolding encode_gamma_def Let_def
    by (simp add: logFloor_2p29 write_bytes_while.simps)
  show ?thesis
    unfolding writeRunLengths_def by (simp add: a b)
qed

subsection \<open>The frequency table\<close>

declare Decrease_loop.simps [simp del] Increase_loop.simps [simp del]

lemma located_iff:
  "located t \<longleftrightarrow> length (freq t) = 256 \<and> length (location t) = 256 \<and>
     (\<forall>i<256. location t ! unat (fst (freq t ! i)) = i)"
  by (auto simp add: located_def list_all_iff)

lemma unat_byte_less: "unat (b :: byte) < 256"
  using unsigned_less [of b, where 'a = nat] by simp

lemma left_inverse_onto:
  fixes f g :: "nat \<Rightarrow> nat"
  assumes "\<forall>i<n. f i < n" and "\<forall>i<n. g (f i) = i" and "k < n"
  shows "g k < n \<and> f (g k) = k"
proof -
  have "inj_on f {..<n}"
  proof (rule inj_onI)
    fix i j assume "i \<in> {..<n}" "j \<in> {..<n}" "f i = f j"
    then show "i = j" using assms(2) by (metis lessThan_iff)
  qed
  then have "card (f ` {..<n}) = card {..<n}"
    by (rule card_image)
  moreover have "f ` {..<n} \<subseteq> {..<n}"
    using assms(1) by auto
  ultimately have "f ` {..<n} = {..<n}"
    by (intro card_subset_eq) simp_all
  then obtain i where "i < n" "f i = k"
    using assms(3) by (metis imageE lessThan_iff)
  then show ?thesis using assms(2) by auto
qed

lemma located_key:
  assumes "located t" and "k < 256"
  shows "location t ! k < 256 \<and> unat (fst (freq t ! (location t ! k))) = k"
proof -
  have "\<forall>i<256. location t ! unat (fst (freq t ! i)) = i"
    using assms(1) by (simp add: located_iff)
  moreover have "\<forall>i<256. unat (fst (freq t ! i)) < 256"
    using unat_byte_less by simp
  ultimately show ?thesis
    using left_inverse_onto [of 256 "\<lambda>i. unat (fst (freq t ! i))" "\<lambda>k. location t ! k" k] assms(2)
    by blast
qed

lemma located_hole:
  assumes "located t" and "key < 256"
  shows "hole_ok t (location t ! key) (fst (freq t ! (location t ! key)))"
proof -
  have inv: "\<forall>i<256. location t ! unat (fst (freq t ! i)) = i"
    using assms(1) by (simp add: located_iff)
  have "location t ! key < 256" using located_key [OF assms] by simp
  moreover have "fst (freq t ! i) \<noteq> fst (freq t ! (location t ! key))"
    if "i < 256" "i \<noteq> location t ! key" for i
    using that inv calculation by metis
  ultimately show ?thesis
    using assms(1) inv by (simp add: hole_ok_def located_iff)
qed

lemma hole_fill:
  assumes "hole_ok t idx k"
  shows "located (t\<lparr>freq := (freq t)[idx := (k, v)], location := (location t)[unat k := idx]\<rparr>)"
proof -
  have h: "idx < 256" "length (freq t) = 256" "length (location t) = 256"
    "\<And>i. i < 256 \<Longrightarrow> i \<noteq> idx \<Longrightarrow> fst (freq t ! i) \<noteq> k \<and> location t ! unat (fst (freq t ! i)) = i"
    using assms by (simp_all add: hole_ok_def)
  have "(location t)[unat k := idx] ! unat (fst ((freq t)[idx := (k, v)] ! i)) = i" if "i < 256" for i
  proof (cases "i = idx")
    case True
    then show ?thesis using h(1-3) unat_byte_less [of k] by simp
  next
    case False
    then have "fst (freq t ! i) \<noteq> k" "location t ! unat (fst (freq t ! i)) = i"
      using h(4) that by simp_all
    then show ?thesis using False by (simp add: word_unat_eq_iff)
  qed
  then show ?thesis using h(2,3) by (simp add: located_iff)
qed

lemma Decrease_loop_hole:
  "hole_ok t idx k \<Longrightarrow> Decrease_loop nv t idx = (t', idx') \<Longrightarrow> hole_ok t' idx' k"
proof (induction nv t idx rule: Decrease_loop.induct)
  case (1 nv t idx)
  show ?case
  proof (cases "idx > 0 \<and> nv < snd (freq t ! (idx - 1))")
    case False
    then have "Decrease_loop nv t idx = (t, idx)"
      by (subst Decrease_loop.simps) (simp only: if_False)
    then show ?thesis using "1.prems" by simp
  next
    case True
    let ?ke = "unat (fst (freq t ! (idx - 1)))"
    let ?t1 = "t\<lparr>location := (location t)[?ke := location t ! ?ke + 1],
                  freq := (freq t)[idx := freq t ! (idx - 1)]\<rparr>"
    have h: "idx < 256" "length (freq t) = 256" "length (location t) = 256"
      "\<And>i. i < 256 \<Longrightarrow> i \<noteq> idx \<Longrightarrow> fst (freq t ! i) \<noteq> k \<and> location t ! unat (fst (freq t ! i)) = i"
      using "1.prems"(1) by (simp_all add: hole_ok_def)
    have p: "idx - 1 < 256" "idx - 1 \<noteq> idx"
      using h(1) True by auto
    have e: "fst (freq t ! (idx - 1)) \<noteq> k" "location t ! ?ke = idx - 1"
      using h(4) [OF p] by simp_all
    have "fst (freq ?t1 ! i) \<noteq> k \<and> location ?t1 ! unat (fst (freq ?t1 ! i)) = i"
      if "i < 256" "i \<noteq> idx - 1" for i
    proof (cases "i = idx")
      case True
      then show ?thesis using e h(1-3) \<open>0 < idx \<and> _\<close> unat_byte_less [of "fst (freq t ! (idx - 1))"]
        by simp
    next
      case False
      then have f: "fst (freq t ! i) \<noteq> k" "location t ! unat (fst (freq t ! i)) = i"
        using h(4) that by simp_all
      then have "unat (fst (freq t ! i)) \<noteq> ?ke" using e(2) that(2) by metis
      then show ?thesis using False f by simp
    qed
    then have ok: "hole_ok ?t1 (idx - 1) k"
      using h(1-3) by (simp add: hole_ok_def)
    have "Decrease_loop nv t idx = Decrease_loop nv ?t1 (idx - 1)"
      using True by (subst Decrease_loop.simps) (simp add: Let_def)
    then show ?thesis using "1.IH" [OF True refl ok] "1.prems"(2) by simp
  qed
qed

lemma Increase_loop_hole:
  "hole_ok t idx k \<Longrightarrow> Increase_loop nv t idx = (t', idx') \<Longrightarrow> hole_ok t' idx' k"
proof (induction nv t idx rule: Increase_loop.induct)
  case (1 nv t idx)
  show ?case
  proof (cases "idx < 255 \<and> nv > snd (freq t ! (idx + 1))")
    case False
    then have "Increase_loop nv t idx = (t, idx)"
      by (subst Increase_loop.simps) (simp only: if_False)
    then show ?thesis using "1.prems" by simp
  next
    case True
    let ?ke = "unat (fst (freq t ! (idx + 1)))"
    let ?t1 = "t\<lparr>location := (location t)[?ke := location t ! ?ke - 1],
                  freq := (freq t)[idx := freq t ! (idx + 1)]\<rparr>"
    have h: "idx < 256" "length (freq t) = 256" "length (location t) = 256"
      "\<And>i. i < 256 \<Longrightarrow> i \<noteq> idx \<Longrightarrow> fst (freq t ! i) \<noteq> k \<and> location t ! unat (fst (freq t ! i)) = i"
      using "1.prems"(1) by (simp_all add: hole_ok_def)
    have p: "idx + 1 < 256" "idx + 1 \<noteq> idx"
      using True by auto
    have e: "fst (freq t ! (idx + 1)) \<noteq> k" "location t ! ?ke = idx + 1"
      using h(4) [OF p] by simp_all
    have "fst (freq ?t1 ! i) \<noteq> k \<and> location ?t1 ! unat (fst (freq ?t1 ! i)) = i"
      if "i < 256" "i \<noteq> idx + 1" for i
    proof (cases "i = idx")
      case True
      then show ?thesis using e h(1-3) unat_byte_less [of "fst (freq t ! (idx + 1))"]
        by simp
    next
      case False
      then have f: "fst (freq t ! i) \<noteq> k" "location t ! unat (fst (freq t ! i)) = i"
        using h(4) that by simp_all
      then have "unat (fst (freq t ! i)) \<noteq> ?ke" using e(2) that(2) by metis
      then show ?thesis using False f by simp
    qed
    then have ok: "hole_ok ?t1 (idx + 1) k"
      using h(2,3) p(1) by (simp add: hole_ok_def)
    have "Increase_loop nv t idx = Increase_loop nv ?t1 (idx + 1)"
      using True by (subst Increase_loop.simps) (simp add: Let_def)
    then show ?thesis using "1.IH" [OF True refl ok] "1.prems"(2) by simp
  qed
qed

lemma ascending_iff:
  "length (freq t) = 256 \<Longrightarrow>
   ascending t \<longleftrightarrow> (\<forall>i j. i < j \<and> j < 256 \<longrightarrow> snd (freq t ! i) \<le> snd (freq t ! j))"
  unfolding ascending_def sorted_iff_nth_mono_less by auto

lemma Decrease_loop_sorted:
  "rest_sorted t idx \<Longrightarrow> \<forall>j. idx < j \<and> j < 256 \<longrightarrow> nv \<le> snd (freq t ! j) \<Longrightarrow>
   idx < 256 \<Longrightarrow> length (freq t) = 256 \<Longrightarrow>
   Decrease_loop nv t idx = (t', idx') \<Longrightarrow>
   rest_sorted t' idx' \<and> (\<forall>j. idx' < j \<and> j < 256 \<longrightarrow> nv \<le> snd (freq t' ! j)) \<and>
   (\<forall>i. i < idx' \<longrightarrow> snd (freq t' ! i) \<le> nv)"
proof (induction nv t idx rule: Decrease_loop.induct)
  case (1 nv t idx)
  have rs: "\<And>i j. i < j \<Longrightarrow> j < 256 \<Longrightarrow> i \<noteq> idx \<Longrightarrow> j \<noteq> idx \<Longrightarrow> snd (freq t ! i) \<le> snd (freq t ! j)"
    using "1.prems"(1) by (simp add: rest_sorted_def)
  have up: "\<And>j. idx < j \<Longrightarrow> j < 256 \<Longrightarrow> nv \<le> snd (freq t ! j)"
    using "1.prems"(2) by simp
  show ?case
  proof (cases "idx > 0 \<and> nv < snd (freq t ! (idx - 1))")
    case False
    then have r: "Decrease_loop nv t idx = (t, idx)"
      by (subst Decrease_loop.simps) (simp only: if_False)
    have "snd (freq t ! i) \<le> nv" if "i < idx" for i
    proof -
      have a: "0 < idx" "snd (freq t ! (idx - 1)) \<le> nv" using that False by auto
      show ?thesis
      proof (cases "i = idx - 1")
        case True then show ?thesis using a by simp
      next
        case False
        then have "snd (freq t ! i) \<le> snd (freq t ! (idx - 1))"
          using that "1.prems"(3) by (intro rs) auto
        then show ?thesis using a by simp
      qed
    qed
    then show ?thesis using r "1.prems" by auto
  next
    case True
    let ?ke = "unat (fst (freq t ! (idx - 1)))"
    let ?t1 = "t\<lparr>location := (location t)[?ke := location t ! ?ke + 1],
                  freq := (freq t)[idx := freq t ! (idx - 1)]\<rparr>"
    have st: "Decrease_loop nv t idx = Decrease_loop nv ?t1 (idx - 1)"
      using True by (subst Decrease_loop.simps) (simp add: Let_def)
    have f1: "freq ?t1 ! i = (if i = idx then freq t ! (idx - 1) else freq t ! i)" if "i < 256" for i
      using that "1.prems"(4) by simp
    have a: "rest_sorted ?t1 (idx - 1)"
      unfolding rest_sorted_def
    proof (intro allI impI)
      fix i j assume ij: "i < j \<and> j < 256 \<and> i \<noteq> idx - 1 \<and> j \<noteq> idx - 1"
      then have i256: "i < 256" by simp
      show "snd (freq ?t1 ! i) \<le> snd (freq ?t1 ! j)"
      proof (cases "j = idx")
        case True
        then have "snd (freq t ! i) \<le> snd (freq t ! (idx - 1))"
          using ij by (intro rs) auto
        then show ?thesis using True ij f1 [of i] f1 [of j] by auto
      next
        case False
        show ?thesis
        proof (cases "i = idx")
          case True
          then have "snd (freq t ! (idx - 1)) \<le> snd (freq t ! j)"
            using ij \<open>j \<noteq> idx\<close> by (intro rs) auto
          then show ?thesis using True ij f1 [of i] f1 [of j] by auto
        next
          case False
          then have "snd (freq t ! i) \<le> snd (freq t ! j)"
            using ij \<open>j \<noteq> idx\<close> by (intro rs) auto
          then show ?thesis using False \<open>j \<noteq> idx\<close> ij f1 [of i] f1 [of j] by auto
        qed
      qed
    qed
    have b: "\<forall>j. idx - 1 < j \<and> j < 256 \<longrightarrow> nv \<le> snd (freq ?t1 ! j)"
    proof (intro allI impI)
      fix j assume j: "idx - 1 < j \<and> j < 256"
      show "nv \<le> snd (freq ?t1 ! j)"
      proof (cases "j = idx")
        case True
        then show ?thesis using \<open>0 < idx \<and> _\<close> f1 [of j] j by auto
      next
        case False
        then have "idx < j" using j by auto
        then show ?thesis using up [of j] j False f1 [of j] by auto
      qed
    qed
    have c: "idx - 1 < 256" "length (freq ?t1) = 256"
      using "1.prems"(3,4) by simp_all
    show ?thesis
      using "1.IH" [OF True refl a b c] "1.prems"(5) st by simp
  qed
qed

lemma Increase_loop_sorted:
  "rest_sorted t idx \<Longrightarrow> \<forall>i. i < idx \<longrightarrow> snd (freq t ! i) \<le> nv \<Longrightarrow>
   idx < 256 \<Longrightarrow> length (freq t) = 256 \<Longrightarrow>
   Increase_loop nv t idx = (t', idx') \<Longrightarrow>
   rest_sorted t' idx' \<and> (\<forall>i. i < idx' \<longrightarrow> snd (freq t' ! i) \<le> nv) \<and>
   (\<forall>j. idx' < j \<and> j < 256 \<longrightarrow> nv \<le> snd (freq t' ! j))"
proof (induction nv t idx rule: Increase_loop.induct)
  case (1 nv t idx)
  have rs: "\<And>i j. i < j \<Longrightarrow> j < 256 \<Longrightarrow> i \<noteq> idx \<Longrightarrow> j \<noteq> idx \<Longrightarrow> snd (freq t ! i) \<le> snd (freq t ! j)"
    using "1.prems"(1) by (simp add: rest_sorted_def)
  have lo: "\<And>i. i < idx \<Longrightarrow> snd (freq t ! i) \<le> nv"
    using "1.prems"(2) by simp
  show ?case
  proof (cases "idx < 255 \<and> nv > snd (freq t ! (idx + 1))")
    case False
    then have r: "Increase_loop nv t idx = (t, idx)"
      by (subst Increase_loop.simps) (simp only: if_False)
    have "nv \<le> snd (freq t ! j)" if "idx < j" "j < 256" for j
    proof -
      have a: "idx < 255" "nv \<le> snd (freq t ! (idx + 1))" using that False by auto
      show ?thesis
      proof (cases "j = idx + 1")
        case True then show ?thesis using a by simp
      next
        case False
        then have "snd (freq t ! (idx + 1)) \<le> snd (freq t ! j)"
          using that by (intro rs) auto
        then show ?thesis using a by simp
      qed
    qed
    then show ?thesis using r "1.prems" by auto
  next
    case True
    let ?ke = "unat (fst (freq t ! (idx + 1)))"
    let ?t1 = "t\<lparr>location := (location t)[?ke := location t ! ?ke - 1],
                  freq := (freq t)[idx := freq t ! (idx + 1)]\<rparr>"
    have st: "Increase_loop nv t idx = Increase_loop nv ?t1 (idx + 1)"
      using True by (subst Increase_loop.simps) (simp add: Let_def)
    have f1: "freq ?t1 ! i = (if i = idx then freq t ! (idx + 1) else freq t ! i)" if "i < 256" for i
      using that "1.prems"(4) by simp
    have a: "rest_sorted ?t1 (idx + 1)"
      unfolding rest_sorted_def
    proof (intro allI impI)
      fix i j assume ij: "i < j \<and> j < 256 \<and> i \<noteq> idx + 1 \<and> j \<noteq> idx + 1"
      then have i256: "i < 256" by simp
      show "snd (freq ?t1 ! i) \<le> snd (freq ?t1 ! j)"
      proof (cases "j = idx")
        case True
        then have "snd (freq t ! i) \<le> snd (freq t ! (idx + 1))"
          using ij \<open>idx < 255 \<and> _\<close> by (intro rs) auto
        then show ?thesis using True ij f1 [of i] f1 [of j] by auto
      next
        case False
        show ?thesis
        proof (cases "i = idx")
          case True
          then have "snd (freq t ! (idx + 1)) \<le> snd (freq t ! j)"
            using ij \<open>j \<noteq> idx\<close> by (intro rs) auto
          then show ?thesis using True ij f1 [of i] f1 [of j] by auto
        next
          case False
          then have "snd (freq t ! i) \<le> snd (freq t ! j)"
            using ij \<open>j \<noteq> idx\<close> by (intro rs) auto
          then show ?thesis using False \<open>j \<noteq> idx\<close> ij f1 [of i] f1 [of j] by auto
        qed
      qed
    qed
    have b: "\<forall>i. i < idx + 1 \<longrightarrow> snd (freq ?t1 ! i) \<le> nv"
    proof (intro allI impI)
      fix i assume i: "i < idx + 1"
      show "snd (freq ?t1 ! i) \<le> nv"
      proof (cases "i = idx")
        case True
        then show ?thesis using \<open>idx < 255 \<and> _\<close> f1 [of i] by auto
      next
        case False
        then have "i < idx" using i by auto
        then show ?thesis using lo [of i] False f1 [of i] "1.prems"(3) by auto
      qed
    qed
    have c: "idx + 1 < 256" "length (freq ?t1) = 256"
      using True "1.prems"(4) by simp_all
    show ?thesis
      using "1.IH" [OF True refl a b c] "1.prems"(5) st by simp
  qed
qed

lemma fill_ascending:
  assumes "rest_sorted t idx" and "\<forall>j. idx < j \<and> j < 256 \<longrightarrow> nv \<le> snd (freq t ! j)"
    and "\<forall>i. i < idx \<longrightarrow> snd (freq t ! i) \<le> nv" and "idx < 256" and "length (freq t) = 256"
  shows "ascending (t\<lparr>freq := (freq t)[idx := (k, nv)], location := loc\<rparr>)"
proof -
  let ?t = "t\<lparr>freq := (freq t)[idx := (k, nv)], location := loc\<rparr>"
  have l: "length (freq ?t) = 256" using assms(5) by simp
  have "snd (freq ?t ! i) \<le> snd (freq ?t ! j)" if "i < j \<and> j < 256" for i j
  proof -
    have f: "freq ?t ! m = (if m = idx then (k, nv) else freq t ! m)" if "m < 256" for m
      using that assms(5) by simp
    consider "i = idx" | "j = idx" | "i \<noteq> idx" "j \<noteq> idx" by blast
    then show ?thesis
    proof cases
      case 1
      then show ?thesis using that assms(2) f [of i] f [of j] by auto
    next
      case 2
      then show ?thesis using that assms(3) f [of i] f [of j] by auto
    next
      case 3
      then have "snd (freq t ! i) \<le> snd (freq t ! j)"
        using that assms(1) by (simp add: rest_sorted_def)
      then show ?thesis using 3 that f [of i] f [of j] by auto
    qed
  qed
  then show ?thesis using ascending_iff [OF l] by blast
qed

lemma ascending_rest_sorted:
  "ascending t \<Longrightarrow> length (freq t) = 256 \<Longrightarrow> rest_sorted t idx"
  by (simp add: ascending_iff rest_sorted_def)

lemma Decrease_result:
  assumes "located t" and "key < 256"
  shows "(count_of t key < d \<longrightarrow> Decrease key d t = Inr (False, t)) \<and>
         (\<not> count_of t key < d \<longrightarrow>
            (\<exists>t'. Decrease key d t = Inr (True, t') \<and> located t' \<and>
                  count_of t' key = count_of t key - d \<and> (ascending t \<longrightarrow> ascending t')))"
proof (intro conjI impI)
  assume "count_of t key < d"
  then show "Decrease key d t = Inr (False, t)"
    using assms(2) by (simp add: Decrease_def count_of_def Let_def)
next
  assume ge: "\<not> count_of t key < d"
  let ?idx = "location t ! key"
  let ?k = "fst (freq t ! ?idx)"
  let ?nv = "snd (freq t ! ?idx) - d"
  obtain t1 idx1 where lp: "Decrease_loop ?nv t ?idx = (t1, idx1)"
    by (cases "Decrease_loop ?nv t ?idx")
  let ?t2 = "t1\<lparr>freq := (freq t1)[idx1 := (?k, ?nv)], location := (location t1)[unat ?k := idx1]\<rparr>"
  have len: "length (freq t) = 256" using assms(1) by (simp add: located_iff)
  have kk: "?idx < 256" "unat ?k = key" using located_key [OF assms] by simp_all
  have h1: "hole_ok t1 idx1 ?k"
    using Decrease_loop_hole [OF located_hole [OF assms] lp] .
  then have b: "idx1 < 256" "length (freq t1) = 256" "length (location t1) = 256"
    by (simp_all add: hole_ok_def)
  have loc2: "located ?t2" using hole_fill [OF h1] .
  have at: "location ?t2 ! key = idx1" "freq ?t2 ! idx1 = (?k, ?nv)"
    using b kk(2) assms(2) by simp_all
  have asrt: "fst (freq ?t2 ! (location ?t2 ! unat ?k)) = ?k"
    using at kk(2) by simp
  have res: "Decrease key d t = Inr (True, ?t2)"
    using ge assms(2) lp asrt
    by (simp add: Decrease_def count_of_def Let_def del: FreqTable.simps)
  have cnt: "count_of ?t2 key = count_of t key - d"
    using at by (simp add: count_of_def)
  have asc: "ascending ?t2" if "ascending t"
  proof -
    have rs: "rest_sorted t ?idx" using that len by (rule ascending_rest_sorted)
    have "?nv \<le> snd (freq t ! ?idx)"
      using ge by (simp add: count_of_def word_sub_le)
    moreover have "snd (freq t ! ?idx) \<le> snd (freq t ! j)" if "?idx < j \<and> j < 256" for j
      using \<open>ascending t\<close> that ascending_iff [OF len] by blast
    ultimately have up: "\<forall>j. ?idx < j \<and> j < 256 \<longrightarrow> ?nv \<le> snd (freq t ! j)"
      by (meson order_trans)
    from Decrease_loop_sorted [OF rs up kk(1) len lp]
    show ?thesis using b(1,2) by (intro fill_ascending) simp_all
  qed
  show "\<exists>t'. Decrease key d t = Inr (True, t') \<and> located t' \<and>
          count_of t' key = count_of t key - d \<and> (ascending t \<longrightarrow> ascending t')"
    using res loc2 cnt asc by blast
qed

lemma Increase_result:
  assumes "located t" and "key < 256"
  shows "\<exists>t'. Increase key v t = Inr t' \<and> located t' \<and>
           count_of t' key = count_of t key + v \<and>
           (ascending t \<and> unat (count_of t key) + unat v < 2 ^ 64 \<longrightarrow> ascending t')"
proof -
  let ?idx = "location t ! key"
  let ?k = "fst (freq t ! ?idx)"
  let ?nv = "snd (freq t ! ?idx) + v"
  obtain t1 idx1 where lp: "Increase_loop ?nv t ?idx = (t1, idx1)"
    by (cases "Increase_loop ?nv t ?idx")
  let ?t2 = "t1\<lparr>freq := (freq t1)[idx1 := (?k, ?nv)], location := (location t1)[unat ?k := idx1]\<rparr>"
  have len: "length (freq t) = 256" using assms(1) by (simp add: located_iff)
  have kk: "?idx < 256" "unat ?k = key" using located_key [OF assms] by simp_all
  have h1: "hole_ok t1 idx1 ?k"
    using Increase_loop_hole [OF located_hole [OF assms] lp] .
  then have b: "idx1 < 256" "length (freq t1) = 256" "length (location t1) = 256"
    by (simp_all add: hole_ok_def)
  have loc2: "located ?t2" using hole_fill [OF h1] .
  have at: "location ?t2 ! key = idx1" "freq ?t2 ! idx1 = (?k, ?nv)"
    using b kk(2) assms(2) by simp_all
  have asrt: "fst (freq ?t2 ! (location ?t2 ! unat ?k)) = ?k"
    using at kk(2) by simp
  have res: "Increase key v t = Inr ?t2"
    using assms(2) lp asrt
    by (simp add: Increase_def Let_def del: FreqTable.simps)
  have cnt: "count_of ?t2 key = count_of t key + v"
    using at by (simp add: count_of_def)
  have asc: "ascending ?t2" if "ascending t" and fit: "unat (count_of t key) + unat v < 2 ^ 64"
  proof -
    have rs: "rest_sorted t ?idx" using that(1) len by (rule ascending_rest_sorted)
    have "snd (freq t ! ?idx) \<le> ?nv"
      using fit by (simp add: count_of_def word_le_nat_alt unat_word_ariths)
    moreover have "snd (freq t ! i) \<le> snd (freq t ! ?idx)" if "i < ?idx" for i
      using \<open>ascending t\<close> that kk(1) ascending_iff [OF len] by blast
    ultimately have lo: "\<forall>i. i < ?idx \<longrightarrow> snd (freq t ! i) \<le> ?nv"
      by (meson order_trans)
    from Increase_loop_sorted [OF rs lo kk(1) len lp]
    show ?thesis using b(1,2) by (intro fill_ascending) simp_all
  qed
  show ?thesis using res loc2 cnt asc by blast
qed

lemma fold_locations:
  assumes "distinct ks" and "n \<le> length ks" and "\<forall>k\<in>set ks. k < length loc0"
  shows "length (fold (\<lambda>i loc. loc[ks ! i := i]) [0..<n] loc0) = length loc0 \<and>
         (\<forall>i<n. fold (\<lambda>i loc. loc[ks ! i := i]) [0..<n] loc0 ! (ks ! i) = i)"
  using assms(2)
proof (induction n)
  case 0
  then show ?case by simp
next
  case (Suc n)
  let ?loc = "fold (\<lambda>i loc. loc[ks ! i := i]) [0..<n] loc0"
  have ih: "length ?loc = length loc0" "\<forall>i<n. ?loc ! (ks ! i) = i"
    using Suc by simp_all
  have kn: "ks ! n < length ?loc"
    using Suc.prems assms(3) ih(1) by simp
  have "(?loc[ks ! n := n]) ! (ks ! i) = i" if "i < Suc n" for i
  proof (cases "i = n")
    case True
    then show ?thesis using kn by simp
  next
    case False
    then have "i < n" using that by simp
    moreover have "ks ! i \<noteq> ks ! n"
      using assms(1) Suc.prems \<open>i < n\<close> by (simp add: nth_eq_iff_index_eq)
    ultimately show ?thesis using ih(2) by simp
  qed
  then show ?case using ih(1) by simp
qed

lemma unat_of_nat_byte: "i < 256 \<Longrightarrow> unat (of_nat i :: byte) = i"
  by (simp add: unat_of_nat)

lemma initial_keys: "map (\<lambda>e. unat (fst e)) (initial_entries f) = [0..<256]"
proof -
  have "map (\<lambda>i. unat (of_nat i :: byte)) [0..<256] = map (\<lambda>i. i) [0..<256]"
    by (rule map_cong) (simp_all add: unat_of_nat_byte)
  then show ?thesis by (simp add: initial_entries_def comp_def)
qed

lemma FreqTable_from_freq:
  "freq (FreqTable_from f) = sort_key snd (initial_entries f)"
  by (simp add: FreqTable_from_def InitLocations_def initial_entries_def)

lemma FreqTable_from_location:
  "location (FreqTable_from f) =
     fold (\<lambda>i loc. loc[map (\<lambda>e. unat (fst e)) (sort_key snd (initial_entries f)) ! i := i])
       [0..<256] (replicate 256 0)"
proof -
  have "fold (\<lambda>i loc. loc[unat (fst (sort_key snd (initial_entries f) ! i)) := i]) [0..<256] l
      = fold (\<lambda>i loc. loc[map (\<lambda>e. unat (fst e)) (sort_key snd (initial_entries f)) ! i := i]) [0..<256] l"
    for l :: "nat list"
    by (rule fold_cong) (simp_all add: initial_entries_def)
  then show ?thesis
    by (simp add: FreqTable_from_def InitLocations_def initial_entries_def [symmetric])
qed

lemma FreqTable_from_invariants:
  "located (FreqTable_from f) \<and> ascending (FreqTable_from f)"
proof -
  let ?es = "sort_key snd (initial_entries f)"
  let ?ks = "map (\<lambda>e. unat (fst e)) ?es"
  have len: "length ?es = 256" by (simp add: initial_entries_def)
  have "distinct (map (\<lambda>e. unat (fst e)) (initial_entries f))"
    unfolding initial_keys by simp
  then have d: "distinct ?ks"
    by (simp add: distinct_map)
  have "\<forall>k\<in>set ?ks. k < length (replicate 256 (0::nat))"
    using unat_byte_less by auto
  from fold_locations [OF d _ this, of 256] len
  have l: "length (location (FreqTable_from f)) = 256"
    "\<forall>i<256. location (FreqTable_from f) ! (?ks ! i) = i"
    unfolding FreqTable_from_location by simp_all
  have "\<forall>i<256. location (FreqTable_from f) ! unat (fst (freq (FreqTable_from f) ! i)) = i"
    using l(2) len unfolding FreqTable_from_freq by simp
  then have "located (FreqTable_from f)"
    using l(1) len by (simp add: located_iff FreqTable_from_freq)
  moreover have "ascending (FreqTable_from f)"
    by (simp add: ascending_def FreqTable_from_freq)
  ultimately show ?thesis by simp
qed

lemma FreqTable_from_count:
  assumes "k < 256"
  shows "count_of (FreqTable_from f) k = f ! k"
proof -
  let ?t = "FreqTable_from f"
  have loc: "located ?t" using FreqTable_from_invariants by simp
  from located_key [OF loc assms]
  have a: "location ?t ! k < 256" "unat (fst (freq ?t ! (location ?t ! k))) = k"
    by simp_all
  have "length (freq ?t) = 256" using loc by (simp add: located_iff)
  then have "freq ?t ! (location ?t ! k) \<in> set (freq ?t)"
    using a(1) by simp
  then have "freq ?t ! (location ?t ! k) \<in> set (initial_entries f)"
    by (simp add: FreqTable_from_freq)
  then obtain i where i: "i < 256" "freq ?t ! (location ?t ! k) = (of_nat i, f ! i)"
    by (auto simp add: initial_entries_def)
  then have "i = k" using a(2) by (simp add: unat_of_nat_byte)
  then show ?thesis using i(2) by (simp add: count_of_def)
qed

lemma apply_ops_invariants:
  "located t \<Longrightarrow> ascending t \<Longrightarrow> list_all (\<lambda>x. op_key x < 256) ops \<Longrightarrow> increases_fit ops t \<Longrightarrow>
   \<exists>t'. apply_ops ops t = Inr t' \<and> located t' \<and> ascending t'"
proof (induction ops arbitrary: t)
  case Nil
  then show ?case by simp
next
  case (Cons x ops)
  have "\<exists>t1. apply_op x t = Inr t1 \<and> located t1 \<and> ascending t1"
  proof (cases x)
    case (IncreaseOp key v)
    then have "key < 256" "unat (count_of t key) + unat v < 2 ^ 64"
      using Cons.prems(3,4) by simp_all
    then show ?thesis
      using Increase_result [OF Cons.prems(1), of key v] Cons.prems(2) IncreaseOp by auto
  next
    case (DecreaseOp key d)
    then have k: "key < 256" using Cons.prems(3) by simp
    show ?thesis
    proof (cases "count_of t key < d")
      case True
      then show ?thesis
        using Decrease_result [OF Cons.prems(1) k, of d] Cons.prems(1,2) DecreaseOp by auto
    next
      case False
      then show ?thesis
        using Decrease_result [OF Cons.prems(1) k, of d] Cons.prems(2) DecreaseOp by auto
    qed
  qed
  then obtain t1 where t1: "apply_op x t = Inr t1" "located t1" "ascending t1"
    by blast
  have "increases_fit ops t1" using Cons.prems(4) t1(1) by simp
  from Cons.IH [OF t1(2,3) _ this] Cons.prems(3) t1(1)
  show ?case by simp
qed

text \<open>
  Claim C2.  In a table that satisfies \<^verbatim>\<open>location_[freq_[i].first] == i\<close>, the entry found
  for a key below 256 is the entry of that key.  When the delta exceeds its count,
  \<^verbatim>\<open>Decrease\<close> returns \<^verbatim>\<open>false\<close> and the table it leaves is the table it was given; otherwise
  it returns \<^verbatim>\<open>true\<close> and the entry of the key holds the count less the delta.
\<close>

theorem Decrease_spec:
  assumes "located t" and "key < 256"
  shows "freq t ! (location t ! key) = (of_nat key, count_of t key) \<and>
         (count_of t key < d \<longrightarrow> Decrease key d t = Inr (False, t)) \<and>
         (\<not> count_of t key < d \<longrightarrow>
            (\<exists>t'. Decrease key d t = Inr (True, t') \<and> located t' \<and>
                  freq t' ! (location t' ! key) = (of_nat key, count_of t key - d)))"
proof -
  have own: "freq t' ! (location t' ! key) = (of_nat key, count_of t' key)" if "located t'" for t'
  proof -
    have "unat (fst (freq t' ! (location t' ! key))) = key"
      using located_key [OF that assms(2)] by simp
    then have "fst (freq t' ! (location t' ! key)) = of_nat key"
      using assms(2) by (simp add: word_unat_eq_iff unat_of_nat_byte)
    then show ?thesis by (simp add: count_of_def prod_eq_iff)
  qed
  show ?thesis
    using Decrease_result [OF assms, of d] own [OF assms(1)] own by metis
qed

text \<open>
  Claim C3, as the code has it.  A table built from 256 frequencies is sorted ascending
  and has \<^verbatim>\<open>location_[freq_[i].first] == i\<close> for every index, and so has the table after
  any sequence of increases and decreases on keys below 256 in which no increase takes a
  count beyond the largest 64-bit value.
\<close>

theorem freq_table_invariants:
  assumes "length frequencies = 256"
    and "list_all (\<lambda>x. op_key x < 256) ops"
    and "increases_fit ops (FreqTable_from frequencies)"
  shows "\<exists>t. apply_ops ops (FreqTable_from frequencies) = Inr t \<and> located t \<and> ascending t"
  using FreqTable_from_invariants [of frequencies] assms(2,3)
  by (intro apply_ops_invariants) simp_all

lemma initial_entries_nth: "j < 256 \<Longrightarrow> initial_entries f ! j = (of_nat j, f ! j)"
  by (simp add: initial_entries_def)

lemma sorted_table_unmoved:
  assumes "length f = 256" and "sorted f"
  shows "freq (FreqTable_from f) = initial_entries f"
    and "k < 256 \<Longrightarrow> location (FreqTable_from f) ! k = k"
proof -
  have "map snd (initial_entries f) = map (\<lambda>i. f ! i) [0..<length f]"
    using assms(1) by (simp add: initial_entries_def comp_def)
  then have "sorted (map snd (initial_entries f))"
    using assms(2) by (simp only: map_nth)
  then show fr: "freq (FreqTable_from f) = initial_entries f"
    unfolding FreqTable_from_freq by (rule sort_key_id_if_sorted)
  assume k: "k < 256"
  have loc: "located (FreqTable_from f)" using FreqTable_from_invariants by simp
  from located_key [OF loc k]
  have a: "location (FreqTable_from f) ! k < 256"
    "unat (fst (freq (FreqTable_from f) ! (location (FreqTable_from f) ! k))) = k"
    by simp_all
  then show "location (FreqTable_from f) ! k = k"
    unfolding fr by (simp add: initial_entries_nth unat_of_nat_byte)
qed

text \<open>
  Without the bound the claim fails: the counts are 64-bit and \<^verbatim>\<open>Increase\<close> adds without a
  check.  In the table of the frequencies 0 (254 times), 5 and 10, increasing the count
  10 of byte 255 by \<open>2^64 - 8\<close> wraps it to 2; the entry is the last one and stays there,
  behind the count 5.
\<close>

theorem increase_overflow_unsorted:
  "map_sum id ascending
     (apply_ops [IncreaseOp 255 0xFFFFFFFFFFFFFFF8] (FreqTable_from (replicate 254 0 @ [5, 10])))
   = Inr False"
proof -
  let ?f = "replicate 254 0 @ [5, 10 :: uint64]"
  let ?t = "FreqTable_from ?f"
  have lf: "length ?f = 256" by simp
  have sf: "sorted ?f" by (simp add: sorted_append)
  have fr: "freq ?t = initial_entries ?f" using lf sf by (rule sorted_table_unmoved)
  have l255: "location ?t ! 255 = 255" using sorted_table_unmoved(2) [OF lf sf, of 255] by simp
  have e255: "freq ?t ! 255 = (255, 10)" and e254: "freq ?t ! 254 = (254, 5)"
    unfolding fr by (simp_all add: initial_entries_nth nth_append)
  have len: "length (freq ?t) = 256" "length (location ?t) = 256"
    using FreqTable_from_invariants [of ?f] by (simp_all add: located_iff)
  let ?t2 = "?t\<lparr>freq := (freq ?t)[255 := (255, 2)], location := (location ?t)[255 := 255]\<rparr>"
  have lp: "Increase_loop 2 ?t 255 = (?t, 255)"
    by (subst Increase_loop.simps) simp
  have nv: "(10 :: uint64) + 0xFFFFFFFFFFFFFFF8 = 2" by simp
  have inc: "Increase 255 0xFFFFFFFFFFFFFFF8 ?t = Inr ?t2"
    unfolding Increase_def Let_def l255 e255 fst_conv snd_conv nv lp using len by simp
  have "\<not> ascending ?t2"
  proof
    assume "ascending ?t2"
    moreover have "length (freq ?t2) = 256" using len by simp
    ultimately have "\<forall>i j. i < j \<and> j < 256 \<longrightarrow> snd (freq ?t2 ! i) \<le> snd (freq ?t2 ! j)"
      using ascending_iff [of ?t2] by blast
    then have "snd (freq ?t2 ! 254) \<le> snd (freq ?t2 ! 255)"
      by (rule allE [of _ 254], elim allE [of _ 255]) simp
    then show False using e254 len by simp
  qed
  then show ?thesis using inc by simp
qed

theorem Decrease_spec_witness:
  "located (FreqTable_from (replicate 254 0 @ [5, 10])) \<and> (255 :: nat) < 256 \<and>
   count_of (FreqTable_from (replicate 254 0 @ [5, 10])) 255 = 10 \<and>
   Decrease 255 11 (FreqTable_from (replicate 254 0 @ [5, 10]))
     = Inr (False, FreqTable_from (replicate 254 0 @ [5, 10])) \<and>
   (\<exists>t'. Decrease 255 3 (FreqTable_from (replicate 254 0 @ [5, 10])) = Inr (True, t') \<and>
         located t' \<and> freq t' ! (location t' ! 255) = (255, 7))"
proof -
  let ?t = "FreqTable_from (replicate 254 0 @ [5, 10])"
  have loc: "located ?t" using FreqTable_from_invariants by simp
  have c: "count_of ?t 255 = 10" by (simp add: FreqTable_from_count nth_append)
  show ?thesis
    using Decrease_spec [OF loc, of 255 11] Decrease_spec [OF loc, of 255 3] loc c by simp
qed

theorem freq_table_invariants_witness:
  "length (replicate 254 0 @ [5, 10 :: uint64]) = 256 \<and>
   list_all (\<lambda>x. op_key x < 256) [IncreaseOp 254 1, DecreaseOp 255 3] \<and>
   increases_fit [IncreaseOp 254 1, DecreaseOp 255 3] (FreqTable_from (replicate 254 0 @ [5, 10])) \<and>
   (\<exists>t. apply_ops [IncreaseOp 254 1, DecreaseOp 255 3] (FreqTable_from (replicate 254 0 @ [5, 10])) = Inr t \<and>
        located t \<and> ascending t)"
proof -
  let ?t = "FreqTable_from (replicate 254 0 @ [5, 10])"
  have c: "count_of ?t 254 = 5" by (simp add: FreqTable_from_count nth_append)
  have fit: "increases_fit [IncreaseOp 254 1, DecreaseOp 255 3] ?t"
    using c by (simp split: sum.split prod.split)
  have h: "length (replicate 254 0 @ [5, 10 :: uint64]) = 256"
    "list_all (\<lambda>x. op_key x < 256) [IncreaseOp 254 1, DecreaseOp 255 3]"
    by simp_all
  show ?thesis
    using freq_table_invariants [OF h fit] h fit by blast
qed

subsection \<open>The selected pairs are free of conflicts\<close>

declare FindReplaceablePairs_loop.simps [simp del]

lemma conflict_free_iff:
  "conflict_free chosen \<longleftrightarrow>
     (\<forall>p\<in>set chosen. \<forall>q\<in>set chosen. first_byte (fst p) \<noteq> second_byte (fst q))"
  by (simp add: conflict_free_def list_all_iff)

lemma conflict_free_snoc:
  assumes "conflict_free chosen"
    and "first_byte (fst c) \<noteq> second_byte (fst c)"
    and "\<not> conflicting chosen (first_byte (fst c)) (second_byte (fst c))"
  shows "conflict_free (chosen @ [c])"
  using assms unfolding conflict_free_iff conflicting_def list_ex_iff
  by (auto simp add: eq_commute)

lemma body_conflict_free:
  assumes "conflict_free (replaceable_pairs st)"
    and "FindReplaceablePairs_body partial_sort st = Inr r"
  shows "conflict_free (replaceable_pairs (iteration_state r))"
proof -
  let ?limit1 = "if current_pair st + 1 \<ge> limit st then limit st + 256 else limit st"
  let ?pf1 = "if current_pair st + 1 \<ge> limit st
              then partial_sort (current_pair st) ?limit1 (pair_freqs st) else pair_freqs st"
  let ?c = "?pf1 ! current_pair st"
  have "replaceable_pairs (iteration_state r) = replaceable_pairs st \<or>
        (replaceable_pairs (iteration_state r) = replaceable_pairs st @ [?c] \<and>
         first_byte (fst ?c) \<noteq> second_byte (fst ?c) \<and>
         \<not> conflicting (replaceable_pairs st) (first_byte (fst ?c)) (second_byte (fst ?c)))"
    using assms(2) unfolding FindReplaceablePairs_body_def Let_def
    by (auto split: if_splits sum.splits prod.splits)
  then show ?thesis
  proof (elim disjE conjE)
    assume "replaceable_pairs (iteration_state r) = replaceable_pairs st"
    then show ?thesis using assms(1) by simp
  next
    assume e: "replaceable_pairs (iteration_state r) = replaceable_pairs st @ [?c]"
      and d: "first_byte (fst ?c) \<noteq> second_byte (fst ?c)"
      and n: "\<not> conflicting (replaceable_pairs st) (first_byte (fst ?c)) (second_byte (fst ?c))"
    show ?thesis
      unfolding e using assms(1) d n by (rule conflict_free_snoc)
  qed
qed

lemma loop_conflict_free:
  "conflict_free (replaceable_pairs st) \<Longrightarrow>
   FindReplaceablePairs_loop partial_sort st = Inr st' \<Longrightarrow>
   conflict_free (replaceable_pairs st')"
proof (induction partial_sort st rule: FindReplaceablePairs_loop.induct)
  case (1 partial_sort st)
  show ?case
  proof (cases "length (replaceable_pairs st) < 254")
    case False
    then have "FindReplaceablePairs_loop partial_sort st = Inr st"
      by (subst FindReplaceablePairs_loop.simps) simp
    then show ?thesis using "1.prems" by simp
  next
    case True
    show ?thesis
    proof (cases "FindReplaceablePairs_body partial_sort st")
      case (Inl e)
      then have "FindReplaceablePairs_loop partial_sort st = Inl e"
        using True by (subst FindReplaceablePairs_loop.simps) simp
      then show ?thesis using "1.prems"(2) by simp
    next
      case (Inr r)
      have cf: "conflict_free (replaceable_pairs (iteration_state r))"
        using "1.prems"(1) Inr by (rule body_conflict_free)
      show ?thesis
      proof (cases r)
        case (Break s)
        then have "FindReplaceablePairs_loop partial_sort st = Inr s"
          using True Inr by (subst FindReplaceablePairs_loop.simps) simp
        then show ?thesis using "1.prems"(2) cf Break by simp
      next
        case (Continue s)
        then have "FindReplaceablePairs_loop partial_sort st = FindReplaceablePairs_loop partial_sort s"
          using True Inr by (subst FindReplaceablePairs_loop.simps) simp
        then show ?thesis
          using "1.IH" [OF True Inr Continue] cf Continue "1.prems"(2) by simp
      qed
    qed
  qed
qed

lemma FindReplaceablePairs_conflict_free:
  "FindReplaceablePairs partial_sort pair_freqs0 freqs0 = Inr st \<Longrightarrow>
   conflict_free (replaceable_pairs st)"
proof -
  assume a: "FindReplaceablePairs partial_sort pair_freqs0 freqs0 = Inr st"
  let ?st0 = "\<lparr>replaceable_pairs = [], pair_freqs = pair_freqs0, freqs = freqs0,
              current_pair = 0, current_symbol = 0, limit = 0\<rparr>"
  from a have "FindReplaceablePairs_loop partial_sort ?st0 = Inr st"
    unfolding FindReplaceablePairs_def by (auto split: sum.splits if_splits)
  moreover have "conflict_free (replaceable_pairs ?st0)"
    by (simp add: conflict_free_def)
  ultimately show ?thesis by (rule loop_conflict_free [rotated])
qed


lemma example_table:
  "FreqTable_from example_frequencies = \<lparr>freq = initial_entries example_frequencies, location = [0..<256]\<rparr>"
proof -
  have l: "length example_frequencies = 256" and s: "sorted example_frequencies"
    by (simp_all add: example_frequencies_def sorted_append)
  have "length (location (FreqTable_from example_frequencies)) = 256"
    using FreqTable_from_invariants [of example_frequencies] by (simp add: located_iff)
  then have "location (FreqTable_from example_frequencies) = [0..<256]"
    using sorted_table_unmoved(2) [OF l s] by (intro nth_equalityI) simp_all
  then show ?thesis
    using sorted_table_unmoved(1) [OF l s] by simp
qed

lemma example_entry:
  "j < 251 \<Longrightarrow> initial_entries example_frequencies ! j = (of_nat j, 0)"
  "initial_entries example_frequencies ! 251 = (0xFB, 50)"
  "initial_entries example_frequencies ! 252 = (0xFC, 60)"
  "initial_entries example_frequencies ! 253 = (0xFD, 300)"
  "initial_entries example_frequencies ! 254 = (0xFE, 300)"
  "initial_entries example_frequencies ! 255 = (0xFF, 400)"
  by (simp_all add: initial_entries_nth example_frequencies_def nth_append)

lemma length_initial_entries: "length (initial_entries f) = 256"
  by (simp add: initial_entries_def)

lemma example_entries_eqI:
  assumes "length xs = 256" and "\<And>j. j < 251 \<Longrightarrow> xs ! j = (of_nat j, 0)"
    and "xs ! 251 = (0xFB, 10)" and "xs ! 252 = (0xFC, 20)" and "xs ! 253 = (0xFD, 200)"
    and "xs ! 254 = (0xFE, 200)" and "xs ! 255 = (0xFF, 400)"
  shows "xs = example_entries"
proof (rule nth_equalityI)
  show "length xs = length example_entries"
    using assms(1) by (simp add: example_entries_def)
next
  fix i
  assume "i < length xs"
  then have "i < 256" using assms(1) by simp
  then consider "i < 251" | "i = 251" | "i = 252" | "i = 253" | "i = 254" | "i = 255"
    by linarith
  then show "xs ! i = example_entries ! i"
    using assms(2-) by cases (simp_all add: example_entries_def nth_append)
qed

lemma example_pair:
  "example_pair_freqs ! 0 = (0xFFFF, 350)"
  "example_pair_freqs ! 1 = (0xFDFE, 100)"
  "example_pair_freqs ! Suc 0 = (0xFDFE, 100)"
  "example_pair_freqs ! 2 = (0xFBFC, 40)"
  "example_pair_freqs ! 3 = (0xFCFD, 5)"
  "example_pair_freqs ! 4 = (4, 0)"
  by (simp_all add: example_pair_freqs_def)

lemma bytes_of_example_pairs:
  "first_byte 0xFFFF = 0xFF" "second_byte 0xFFFF = 0xFF"
  "first_byte 0xFDFE = 0xFD" "second_byte 0xFDFE = 0xFE"
  "first_byte 0xFBFC = 0xFB" "second_byte 0xFBFC = 0xFC"
  "first_byte 0xFCFD = 0xFC" "second_byte 0xFCFD = 0xFD"
  "first_byte 4 = 0" "second_byte 4 = 4"
  by (simp_all add: first_byte_def second_byte_def)

lemma Decrease_in_place:
  assumes "length E = 256" and "k < 256" and "fst (E ! k) = of_nat k" and "v \<le> snd (E ! k)"
    and "k = 0 \<or> snd (E ! (k - 1)) \<le> snd (E ! k) - v"
  shows "Decrease k v \<lparr>freq = E, location = [0..<256]\<rparr>
       = Inr (True, \<lparr>freq = E[k := (of_nat k, snd (E ! k) - v)], location = [0..<256]\<rparr>)"
proof -
  let ?t = "\<lparr>freq = E, location = [0..<256]\<rparr>"
  have lp: "Decrease_loop (snd (E ! k) - v) ?t k = (?t, k)"
    using assms(5) by (subst Decrease_loop.simps) (auto simp add: not_less)
  show ?thesis
    unfolding Decrease_def Let_def using assms(1-4) lp
    by (simp add: unat_of_nat_byte list_update_same_conv not_less)
qed

lemma Decrease_too_large:
  assumes "k < 256" and "snd (E ! k) < v"
  shows "Decrease k v \<lparr>freq = E, location = [0..<256]\<rparr>
       = Inr (False, \<lparr>freq = E, location = [0..<256]\<rparr>)"
  unfolding Decrease_def Let_def using assms by simp

lemma Increase_in_place:
  assumes "length E = 256" and "k < 256" and "fst (E ! k) = of_nat k"
    and "k = 255 \<or> snd (E ! k) + v \<le> snd (E ! (k + 1))"
  shows "Increase k v \<lparr>freq = E, location = [0..<256]\<rparr>
       = Inr \<lparr>freq = E[k := (of_nat k, snd (E ! k) + v)], location = [0..<256]\<rparr>"
proof -
  let ?t = "\<lparr>freq = E, location = [0..<256]\<rparr>"
  have lp: "Increase_loop (snd (E ! k) + v) ?t k = (?t, k)"
    using assms(2,4) by (subst Increase_loop.simps) (auto simp add: not_less)
  show ?thesis
    unfolding Increase_def Let_def using assms(1-3) lp
    by (simp add: unat_of_nat_byte list_update_same_conv)
qed

lemmas example_simps = FindReplaceablePairs_body_def Let_def keep_order_def example_pair
  bytes_of_example_pairs example_entry length_initial_entries Decrease_in_place
  Decrease_too_large Increase_in_place restore2_def freq_at_def conflicting_def

lemma example_pass_1:
  "FindReplaceablePairs_body keep_order
     \<lparr>replaceable_pairs = [], pair_freqs = example_pair_freqs,
      freqs = \<lparr>freq = initial_entries example_frequencies, location = [0..<256]\<rparr>,
      current_pair = 0, current_symbol = 0, limit = 0\<rparr>
   = Inr (Continue \<lparr>replaceable_pairs = [], pair_freqs = example_pair_freqs,
      freqs = \<lparr>freq = initial_entries example_frequencies, location = [0..<256]\<rparr>,
      current_pair = 1, current_symbol = 0, limit = 256\<rparr>)"
  by (simp add: example_simps)

lemma example_pass_2:
  "FindReplaceablePairs_body keep_order
     \<lparr>replaceable_pairs = [], pair_freqs = example_pair_freqs,
      freqs = \<lparr>freq = initial_entries example_frequencies, location = [0..<256]\<rparr>,
      current_pair = 1, current_symbol = 0, limit = 256\<rparr>
   = Inr (Continue \<lparr>replaceable_pairs = [(0xFDFE, 100)], pair_freqs = example_pair_freqs,
      freqs = \<lparr>freq = (initial_entries example_frequencies)
                 [253 := (0xFD, 200), 254 := (0xFE, 200)], location = [0..<256]\<rparr>,
      current_pair = 2, current_symbol = 1, limit = 256\<rparr>)"
  by (simp add: example_simps)

lemma example_pass_3:
  "FindReplaceablePairs_body keep_order
     \<lparr>replaceable_pairs = [(0xFDFE, 100)], pair_freqs = example_pair_freqs,
      freqs = \<lparr>freq = (initial_entries example_frequencies)
                 [253 := (0xFD, 200), 254 := (0xFE, 200)], location = [0..<256]\<rparr>,
      current_pair = 2, current_symbol = 1, limit = 256\<rparr>
   = Inr (Continue \<lparr>replaceable_pairs = [(0xFDFE, 100), (0xFBFC, 40)],
      pair_freqs = example_pair_freqs,
      freqs = \<lparr>freq = (initial_entries example_frequencies)
                 [253 := (0xFD, 200), 254 := (0xFE, 200), 251 := (0xFB, 10), 252 := (0xFC, 20)],
               location = [0..<256]\<rparr>,
      current_pair = 3, current_symbol = 2, limit = 256\<rparr>)"
  by (simp add: example_simps)

lemma example_pass_4:
  "FindReplaceablePairs_body keep_order
     \<lparr>replaceable_pairs = [(0xFDFE, 100), (0xFBFC, 40)],
      pair_freqs = example_pair_freqs,
      freqs = \<lparr>freq = (initial_entries example_frequencies)
                 [253 := (0xFD, 200), 254 := (0xFE, 200), 251 := (0xFB, 10), 252 := (0xFC, 20)],
               location = [0..<256]\<rparr>,
      current_pair = 3, current_symbol = 2, limit = 256\<rparr>
   = Inr (Continue \<lparr>replaceable_pairs = [(0xFDFE, 100), (0xFBFC, 40)],
      pair_freqs = example_pair_freqs,
      freqs = \<lparr>freq = (initial_entries example_frequencies)
                 [253 := (0xFD, 200), 254 := (0xFE, 200), 251 := (0xFB, 10), 252 := (0xFC, 20)],
               location = [0..<256]\<rparr>,
      current_pair = 4, current_symbol = 2, limit = 256\<rparr>)"
  apply (simp add: example_simps)
  apply (rule nth_equalityI)
  apply (simp_all add: nth_list_update length_initial_entries)
  done

lemma example_pass_5:
  "FindReplaceablePairs_body keep_order
     \<lparr>replaceable_pairs = [(0xFDFE, 100), (0xFBFC, 40)],
      pair_freqs = example_pair_freqs,
      freqs = \<lparr>freq = (initial_entries example_frequencies)
                 [253 := (0xFD, 200), 254 := (0xFE, 200), 251 := (0xFB, 10), 252 := (0xFC, 20)],
               location = [0..<256]\<rparr>,
      current_pair = 4, current_symbol = 2, limit = 256\<rparr>
   = Inr (Break example_result)"
  apply (simp add: example_simps example_result_def)
  apply (rule example_entries_eqI)
  apply (simp_all add: nth_list_update example_entry length_initial_entries)
  done

lemma example_selection:
  "FindReplaceablePairs keep_order example_pair_freqs (FreqTable_from example_frequencies)
   = Inr example_result"
  unfolding FindReplaceablePairs_def example_table
  apply (subst FindReplaceablePairs_loop.simps)
  apply (simp add: example_pass_1 del: One_nat_def)
  apply (subst FindReplaceablePairs_loop.simps)
  apply (simp add: example_pass_2 del: One_nat_def)
  apply (subst FindReplaceablePairs_loop.simps)
  apply (simp add: example_pass_3 del: One_nat_def)
  apply (subst FindReplaceablePairs_loop.simps)
  apply (simp add: example_pass_4 del: One_nat_def)
  apply (subst FindReplaceablePairs_loop.simps)
  apply (simp add: example_pass_5 del: One_nat_def)
  apply (simp add: example_result_def)
  done

text \<open>
  C6: the pairs that \<^verbatim>\<open>FindReplaceablePairs\<close> returns are free of conflicts.  Whatever the
  array of pair frequencies, the table of byte frequencies and the partial sort are, when
  the selection returns, for any two pairs \<open>p\<close> and \<open>q\<close> of its result (the same pair twice
  included) the first byte of \<open>p\<close> is not the second byte of \<open>q\<close> and the second byte of \<open>p\<close>
  is not the first byte of \<open>q\<close>.
\<close>

theorem FindReplaceablePairs_selects_conflict_free:
  assumes "FindReplaceablePairs partial_sort pair_freqs0 freqs0 = Inr st"
    and "p \<in> set (replaceable_pairs st)" and "q \<in> set (replaceable_pairs st)"
  shows "first_byte (fst p) \<noteq> second_byte (fst q) \<and> second_byte (fst p) \<noteq> first_byte (fst q)"
proof -
  have cf: "conflict_free (replaceable_pairs st)"
    using assms(1) by (rule FindReplaceablePairs_conflict_free)
  have "first_byte (fst p) \<noteq> second_byte (fst q)"
    using cf assms(2,3) unfolding conflict_free_iff by blast
  moreover have "first_byte (fst q) \<noteq> second_byte (fst p)"
    using cf assms(2,3) unfolding conflict_free_iff by blast
  ultimately show ?thesis by (simp add: eq_commute)
qed

theorem FindReplaceablePairs_selects_conflict_free_witness:
  "FindReplaceablePairs keep_order example_pair_freqs (FreqTable_from example_frequencies)
     = Inr example_result
   \<and> (0xFDFE, 100) \<in> set (replaceable_pairs example_result)
   \<and> (0xFBFC, 40) \<in> set (replaceable_pairs example_result)
   \<and> first_byte (fst (0xFDFE :: uint16, 100 :: uint32))
       \<noteq> second_byte (fst (0xFBFC :: uint16, 40 :: uint32))
   \<and> second_byte (fst (0xFDFE :: uint16, 100 :: uint32))
       \<noteq> first_byte (fst (0xFBFC :: uint16, 40 :: uint32))"
  using FindReplaceablePairs_selects_conflict_free
          [OF example_selection, of "(0xFDFE, 100)" "(0xFBFC, 40)"] example_selection
  by (simp add: example_result_def)

text \<open>
  C10: \<^verbatim>\<open>FindReplaceablePairs\<close> never selects a pair of two equal bytes.  Whatever the array
  of pair frequencies, the table of byte frequencies and the partial sort are, when the
  selection returns, the first byte of every pair of its result differs from the second
  byte of that pair.  In the example the pair \<open>0xFFFF\<close> has the largest frequency and is not
  among the selected pairs.
\<close>

theorem FindReplaceablePairs_skips_equal_bytes:
  assumes "FindReplaceablePairs partial_sort pair_freqs0 freqs0 = Inr st"
    and "p \<in> set (replaceable_pairs st)"
  shows "first_byte (fst p) \<noteq> second_byte (fst p)"
proof -
  have "conflict_free (replaceable_pairs st)"
    using assms(1) by (rule FindReplaceablePairs_conflict_free)
  then show ?thesis
    using assms(2) unfolding conflict_free_iff by blast
qed

theorem FindReplaceablePairs_skips_equal_bytes_witness:
  "FindReplaceablePairs keep_order example_pair_freqs (FreqTable_from example_frequencies)
     = Inr example_result
   \<and> (0xFDFE, 100) \<in> set (replaceable_pairs example_result)
   \<and> first_byte (fst (0xFDFE :: uint16, 100 :: uint32))
       \<noteq> second_byte (fst (0xFDFE :: uint16, 100 :: uint32))
   \<and> example_pair_freqs ! 0 = (0xFFFF, 350)
   \<and> (0xFFFF, 350) \<notin> set (replaceable_pairs example_result)"
  using FindReplaceablePairs_skips_equal_bytes
          [OF example_selection, of "(0xFDFE, 100)"] example_selection
  by (simp add: example_result_def example_pair)

subsection \<open>A block of one byte\<close>

declare EscapeCharIndex_sum.simps [simp del] EscapeCharIndex_loop.simps [simp del]
  count_free.simps [simp del] WriteReplacements_loop.simps [simp del]

lemma freq_at_error: "freq_at t i = Inl e \<Longrightarrow> e = AssertionFailed"
  by (simp add: freq_at_def split: if_splits)

lemma Key_error: "Key t i = Inl e \<Longrightarrow> e = AssertionFailed"
  by (simp add: Key_def split: if_splits)

lemma Increase_error: "Increase k v t = Inl e \<Longrightarrow> e = AssertionFailed"
  by (simp add: Increase_def Let_def split: if_splits prod.splits)

lemma Decrease_error: "Decrease k v t = Inl e \<Longrightarrow> e = AssertionFailed"
  by (simp add: Decrease_def Let_def split: if_splits prod.splits)

lemma restore2_error: "restore2 a b v t = Inl e \<Longrightarrow> e = AssertionFailed"
  by (auto simp add: restore2_def split: sum.splits dest: Increase_error)

lemma count_free_error: "count_free t i = Inl e \<Longrightarrow> e = AssertionFailed"
proof (induction t i rule: count_free.induct)
  case (1 t free_symbols)
  then show ?case
    by (subst (asm) count_free.simps) (auto split: sum.splits if_splits dest: freq_at_error)
qed

lemma FindReplaceablePairs_body_error:
  "FindReplaceablePairs_body partial_sort st = Inl e \<Longrightarrow> e = AssertionFailed"
  unfolding FindReplaceablePairs_body_def Let_def
  by (auto split: if_splits sum.splits prod.splits
        dest: Decrease_error Increase_error restore2_error freq_at_error)

lemma FindReplaceablePairs_loop_error:
  "FindReplaceablePairs_loop partial_sort st = Inl e \<Longrightarrow> e = AssertionFailed"
proof (induction partial_sort st rule: FindReplaceablePairs_loop.induct)
  case (1 partial_sort st)
  from "1.prems" show ?case
    by (subst (asm) FindReplaceablePairs_loop.simps)
      (auto split: if_splits sum.splits iteration.splits
         dest: FindReplaceablePairs_body_error "1.IH")
qed

lemma FindReplaceablePairs_error:
  "FindReplaceablePairs partial_sort pf t = Inl e \<Longrightarrow> e = AssertionFailed"
  unfolding FindReplaceablePairs_def
  by (auto split: sum.splits if_splits dest: FindReplaceablePairs_loop_error)

lemma EscapeCharIndex_sum_error:
  "EscapeCharIndex_sum t sp u i = Inl e \<Longrightarrow> e = AssertionFailed"
proof (induction t sp u i rule: EscapeCharIndex_sum.induct)
  case (1 t suitable_pairs utility i)
  from "1.prems" show ?case
    by (subst (asm) EscapeCharIndex_sum.simps)
      (auto split: if_splits sum.splits dest: freq_at_error "1.IH")
qed

lemma EscapeCharIndex_loop_error:
  "EscapeCharIndex_loop t sp f u i = Inl e \<Longrightarrow> e = AssertionFailed"
proof (induction t sp f u i rule: EscapeCharIndex_loop.induct)
  case (1 t suitable_pairs free_symbols utility i)
  let ?i1 = "i - 1"
  let ?fst = "first_byte (fst (suitable_pairs ! ?i1))"
  let ?snd = "second_byte (fst (suitable_pairs ! ?i1))"
  let ?val = "ucast (snd (suitable_pairs ! ?i1)) :: uint64"
  show ?case
  proof (cases "freq_at t i")
    case (Inl e')
    then show ?thesis
      using "1.prems" freq_at_error [of t i e']
      by (subst (asm) EscapeCharIndex_loop.simps) simp
  next
    case c: (Inr c)
    show ?thesis
    proof (cases "sint utility \<le> sint c \<and> i > free_symbols")
      case False
      then show ?thesis
        using "1.prems" c by (subst (asm) EscapeCharIndex_loop.simps) auto
    next
      case True
      show ?thesis
      proof (cases "restore2 ?fst ?snd ?val t")
        case (Inl e')
        then show ?thesis
          using "1.prems" c True restore2_error [of ?fst ?snd ?val t e']
          by (subst (asm) EscapeCharIndex_loop.simps) (simp add: Let_def)
      next
        case t2: (Inr t2)
        show ?thesis
        proof (cases "freq_at t2 ?i1")
          case (Inl e')
          then show ?thesis
            using "1.prems" c True t2 freq_at_error [of t2 ?i1 e']
            by (subst (asm) EscapeCharIndex_loop.simps) (simp add: Let_def)
        next
          case c1: (Inr c1)
          have "EscapeCharIndex_loop t suitable_pairs free_symbols utility i
              = EscapeCharIndex_loop t2 suitable_pairs free_symbols (utility - (?val - c1 - 3)) ?i1"
            using c True t2 c1 by (subst EscapeCharIndex_loop.simps) (simp add: Let_def)
          then show ?thesis
            using "1.IH" [OF c True refl refl refl refl t2 c1] "1.prems" by simp
        qed
      qed
    qed
  qed
qed

lemma EscapeCharIndex_error:
  "EscapeCharIndex t sp f = Inl e \<Longrightarrow> e = AssertionFailed"
  unfolding EscapeCharIndex_def
  by (auto split: if_splits sum.splits prod.splits
        dest: EscapeCharIndex_sum_error EscapeCharIndex_loop_error)

lemma fold_result_error:
  assumes "\<And>x s e. f x s = Inl e \<Longrightarrow> e = AssertionFailed"
  shows "fold_result f xs s = Inl e \<Longrightarrow> e = AssertionFailed"
  by (induction xs arbitrary: s) (auto split: sum.splits dest: assms)

lemma take_symbol_error:
  "take_symbol t rp c esc k s = Inl e \<Longrightarrow> e = AssertionFailed"
  unfolding take_symbol_def
  by (auto split: prod.splits sum.splits if_splits dest: Key_error)

lemma free_symbol_error:
  "free_symbol t rp c esc ei i s = Inl e \<Longrightarrow> e = AssertionFailed"
  unfolding free_symbol_def Let_def
  by (auto split: prod.splits sum.splits if_splits dest: Key_error take_symbol_error)

lemma WriteReplacements_one:
  "WriteReplacements replacements from 1 common_byte escape_byte = Inl AssertionFailed"
  unfolding WriteReplacements_def
  by (subst WriteReplacements_loop.simps) (simp add: last_index_def Let_def)

lemma bind_assert:
  assumes "\<And>e. r = Inl e \<Longrightarrow> e = AssertionFailed"
    and "\<And>x. r = Inr x \<Longrightarrow> k x = Inl AssertionFailed"
  shows "(case r of Inl e \<Rightarrow> Inl e | Inr x \<Rightarrow> k x) = Inl AssertionFailed"
  using assms by (cases r) auto

lemma if_assert:
  assumes "(if c then a else b) = Inl e"
    and "c \<Longrightarrow> a = Inl e \<Longrightarrow> e = AssertionFailed"
    and "\<not> c \<Longrightarrow> b = Inl e \<Longrightarrow> e = AssertionFailed"
  shows "e = AssertionFailed"
  using assms by (simp split: if_splits)

text \<open>
  C1: \<^verbatim>\<open>CompressCommonPairs\<close> returns a total size of at most \<open>L + 3\<close> for every block of length
  \<open>L > 0\<close>.  It fails for \<open>L = 1\<close>.  \<^verbatim>\<open>WriteReplacements\<close> starts with \<^verbatim>\<open>i = 1\<close> and on every path
  of its first pass comes to \<^verbatim>\<open>if (i >= length - 1)\<close> with \<^verbatim>\<open>i\<close> equal to 1 or 2 and
  \<^verbatim>\<open>length - 1\<close> equal to 0, where \<^verbatim>\<open>assert(i == length - 1)\<close> fails: whatever the table of
  replacements, the bytes of the array, the common byte and the escape byte are, it returns
  no size for a block of one byte.  Therefore \<^verbatim>\<open>CompressCommonPairs\<close>, whose every other
  failure is a failed assertion as well, returns no size for an array that holds a block
  of one byte and the three bytes after it, whatever the two sorts do.
\<close>

theorem CompressCommonPairs_one_byte:
  assumes "length from = 1 + 3"
  shows "WriteReplacements replacements from 1 common_byte escape_byte = Inl AssertionFailed \<and>
         CompressCommonPairs std_sort partial_sort from 1 = Inl AssertionFailed"
proof
  show "WriteReplacements replacements from 1 common_byte escape_byte = Inl AssertionFailed"
    by (rule WriteReplacements_one)
  show "CompressCommonPairs std_sort partial_sort from 1 = Inl AssertionFailed"
    unfolding CompressCommonPairs_def Let_def split_def
    apply (simp only: zero_less_one not_True_eq_False if_False)
    apply (rule bind_assert, erule count_free_error)
    apply (rule bind_assert, erule FindReplaceablePairs_error)
    apply (rule bind_assert)
     apply (erule if_assert, erule EscapeCharIndex_error, simp)
    apply (rule bind_assert, erule Key_error)
    apply (rule bind_assert)
     apply (erule if_assert, erule Key_error, simp)
    apply (rule bind_assert)
     apply (erule fold_result_error [rotated], erule take_symbol_error)
    apply (rule bind_assert)
     apply (erule if_assert, erule fold_result_error [rotated], erule free_symbol_error, simp)
    apply (rule bind_assert)
     apply (erule if_assert, erule Key_error, erule if_assert, erule Key_error, simp)
    apply (simp only: WriteReplacements_one sum.case)
    done
qed

theorem CompressCommonPairs_one_byte_witness:
  "length [0x41 :: byte, 0, 0, 0] = 1 + 3 \<and>
   WriteReplacements (replicate 65536 0x41) [0x41, 0, 0, 0] 1 0x41 0x41 = Inl AssertionFailed \<and>
   CompressCommonPairs (sort_key snd) keep_order [0x41, 0, 0, 0] 1 = Inl AssertionFailed"
  using CompressCommonPairs_one_byte
          [of "[0x41, 0, 0, 0]" "replicate 65536 0x41" "0x41" "0x41" "sort_key snd" keep_order]
  by simp

end
